theory Spec2Isabelle
  imports Main "HOL-Library.Char_ord" "HOL-Library.Multiset"
begin

section \<open>Tokens (starlark/token.h)\<close>

text \<open>
  The two enumerations and the token variant of \<^verbatim>\<open>token.h\<close>. The constructors keep the
  enumerators' names and order; \<^verbatim>\<open>Keyword::Not\<close> and \<^verbatim>\<open>Keyword::If\<close> are suffixed because
  HOL already has constants of these names.
\<close>

datatype Punctuator =
    Plus | Minus | Star | Slash | DoubleSlash | Percent | DoubleStar | Tilde
  | Ampersand | Pipe | Caret | LShift | RShift | Dot | Comma | Equals
  | Semicolon | Colon | LParen | RParen | LBracket | RBracket | LBrace | RBrace
  | Less | Greater | GreaterOrEqual | LessOrEqual | EqualEqual | NotEqual
  | PlusEquals | MinusEquals | StarEquals | SlashEquals | DoubleSlashEquals
  | PercentEquals | AmpersandEquals | PipeEquals | CaretEquals
  | LShiftEquals | RShiftEquals

datatype Keyword =
    And | Else | Load | Break | For | Not_kw | Continue | If_kw | Or | Def
  | In | Pass | Elif | Lambda | Return

text \<open>\<^verbatim>\<open>to_string(Keyword)\<close> of \<^verbatim>\<open>token.h\<close>: the spelling of each reserved word.\<close>

fun Keyword_to_string :: "Keyword \<Rightarrow> string" where
  "Keyword_to_string And = ''and''"
| "Keyword_to_string Else = ''else''"
| "Keyword_to_string Load = ''load''"
| "Keyword_to_string Break = ''break''"
| "Keyword_to_string For = ''for''"
| "Keyword_to_string Not_kw = ''not''"
| "Keyword_to_string Continue = ''continue''"
| "Keyword_to_string If_kw = ''if''"
| "Keyword_to_string Or = ''or''"
| "Keyword_to_string Def = ''def''"
| "Keyword_to_string In = ''in''"
| "Keyword_to_string Pass = ''pass''"
| "Keyword_to_string Elif = ''elif''"
| "Keyword_to_string Lambda = ''lambda''"
| "Keyword_to_string Return = ''return''"

datatype Token =
    Punctuator Punctuator
  | Keyword Keyword
  | Identifier string
  | StringLiteral string
  | Eof

section \<open>The tokenizer (starlark/tokenizer.h)\<close>

text \<open>
  A \<^verbatim>\<open>Tokenizer\<close> object is the immutable view \<^verbatim>\<open>input_\<close> together with the cursor
  \<^verbatim>\<open>pos_\<close>. Every member function below takes the input and the cursor on entry and returns
  the cursor on exit next to its result, so the mutation of \<^verbatim>\<open>pos_\<close> is explicit. The cursor
  is a \<^typ>\<open>nat\<close>: \<^verbatim>\<open>std::size_t\<close> cannot wrap here, as the cursor is bounded by the length
  of the input (lemma \<open>Tokenizer_tokenize_bounds\<close> below). A \<^verbatim>\<open>std::nullopt\<close> result is
  \<^const>\<open>None\<close>.

  \<^verbatim>\<open>char\<close> comparisons are those of the theory \<open>Char_ord\<close> (by character code). For
  the three ranges tested by the code the outcome is the same whether \<^verbatim>\<open>char\<close> is signed or
  unsigned: a byte above 0x7F lies in none of them under either reading.
\<close>

definition dquote :: char where
  "dquote = CHR 0x22"

definition triple_quote :: string where
  "triple_quote = [dquote, dquote, dquote]"

definition is_whitespace :: "char \<Rightarrow> bool" where
  "is_whitespace c \<longleftrightarrow> c = CHR '' '' \<or> c = CHR 0x09 \<or> c = CHR 0x0A \<or> c = CHR 0x0D"

definition is_alpha :: "char \<Rightarrow> bool" where
  "is_alpha c \<longleftrightarrow>
     (CHR ''a'' \<le> c \<and> c \<le> CHR ''z'') \<or> (CHR ''A'' \<le> c \<and> c \<le> CHR ''Z'') \<or> c = CHR ''_''"

definition is_digit :: "char \<Rightarrow> bool" where
  "is_digit c \<longleftrightarrow> CHR ''0'' \<le> c \<and> c \<le> CHR ''9''"

text \<open>
  \<^verbatim>\<open>std::string_view::substr(pos, n)\<close> for \<^verbatim>\<open>pos <= size()\<close>: at most \<open>n\<close> characters from
  \<open>pos\<close> on. (It throws for \<^verbatim>\<open>pos > size()\<close>; every call site has the cursor within the input.)
\<close>

definition substr :: "string \<Rightarrow> nat \<Rightarrow> nat \<Rightarrow> string" where
  "substr s pos n = take n (drop pos s)"

text \<open>
  The four scanning loops of the tokenizer have one shape,
  \<^verbatim>\<open>while (pos_ < input_.size() && P(input_[pos_])) ++pos_;\<close>
  with \<open>P\<close> the whitespace test, \<^verbatim>\<open>!= '\n'\<close>, \<^verbatim>\<open>!= '"'\<close> and the identifier-character test.
\<close>

function scan_while :: "(char \<Rightarrow> bool) \<Rightarrow> string \<Rightarrow> nat \<Rightarrow> nat" where
  "scan_while P inp pos =
     (if pos < length inp \<and> P (inp ! pos) then scan_while P inp (pos + 1) else pos)"
  by pat_completeness auto
termination
  by (relation "measure (\<lambda>(P, inp, pos). length inp - pos)") auto

declare scan_while.simps [simp del]

lemma scan_while_code [code]:
  "scan_while P inp pos =
     (if pos < length inp \<and> P (inp ! pos) then scan_while P inp (Suc pos) else pos)"
  by (subst scan_while.simps) simp

lemma scan_while_True:
  "pos < length inp \<Longrightarrow> P (inp ! pos) \<Longrightarrow> scan_while P inp pos = scan_while P inp (Suc pos)"
  by (subst scan_while.simps) simp

lemma scan_while_False:
  "\<not> (pos < length inp \<and> P (inp ! pos)) \<Longrightarrow> scan_while P inp pos = pos"
  by (subst scan_while.simps) auto

lemma scan_while_ge: "pos \<le> scan_while P inp pos"
proof (induction P inp pos rule: scan_while.induct)
  case (1 P inp pos)
  show ?case
  proof (cases "pos < length inp \<and> P (inp ! pos)")
    case True
    with 1 have "pos + 1 \<le> scan_while P inp (pos + 1)" by simp
    with True show ?thesis by (simp add: scan_while_True)
  next
    case False
    then show ?thesis by (simp add: scan_while_False)
  qed
qed

lemma scan_while_le: "pos \<le> length inp \<Longrightarrow> scan_while P inp pos \<le> length inp"
proof (induction P inp pos rule: scan_while.induct)
  case (1 P inp pos)
  show ?case
  proof (cases "pos < length inp \<and> P (inp ! pos)")
    case True
    with 1 have "scan_while P inp (pos + 1) \<le> length inp" by simp
    with True show ?thesis by (simp add: scan_while_True)
  next
    case False
    with 1 show ?thesis by (simp add: scan_while_False)
  qed
qed

lemma scan_while_past: "length inp \<le> pos \<Longrightarrow> scan_while P inp pos = pos"
  by (simp add: scan_while_False)

lemma scan_while_stop:
  "scan_while P inp pos < length inp \<Longrightarrow> \<not> P (inp ! scan_while P inp pos)"
proof (induction P inp pos rule: scan_while.induct)
  case (1 P inp pos)
  show ?case
  proof (cases "pos < length inp \<and> P (inp ! pos)")
    case True
    then have eq: "scan_while P inp pos = scan_while P inp (pos + 1)"
      by (simp add: scan_while_True)
    with 1 True show ?thesis by simp
  next
    case False
    then have eq: "scan_while P inp pos = pos"
      by (simp add: scan_while_False)
    with 1 False show ?thesis by simp
  qed
qed

lemma scan_while_step:
  "pos < length inp \<Longrightarrow> P (inp ! pos) \<Longrightarrow> pos < scan_while P inp pos"
proof -
  assume a: "pos < length inp" "P (inp ! pos)"
  then have "scan_while P inp pos = scan_while P inp (pos + 1)"
    by (simp add: scan_while_True)
  moreover have "pos + 1 \<le> scan_while P inp (pos + 1)" by (rule scan_while_ge)
  ultimately show ?thesis by simp
qed

text \<open>The loop stops at the end of the maximal run of \<open>P\<close>-characters from the cursor on.\<close>

lemma scan_while_takeWhile:
  "pos \<le> length inp \<Longrightarrow> scan_while P inp pos = pos + length (takeWhile P (drop pos inp))"
proof (induction P inp pos rule: scan_while.induct)
  case (1 P inp pos)
  show ?case
  proof (cases "pos < length inp")
    case True
    then have d: "drop pos inp = inp ! pos # drop (Suc pos) inp"
      by (simp add: Cons_nth_drop_Suc)
    show ?thesis
    proof (cases "P (inp ! pos)")
      case True
      with \<open>pos < length inp\<close> 1 have "scan_while P inp (pos + 1) =
          pos + 1 + length (takeWhile P (drop (pos + 1) inp))" by simp
      with True \<open>pos < length inp\<close> d show ?thesis
        by (simp add: scan_while_True)
    next
      case False
      with d show ?thesis by (simp add: scan_while_False)
    qed
  next
    case False
    then show ?thesis by (simp add: scan_while_False)
  qed
qed

text \<open>
  \<^verbatim>\<open>skip_comments_and_whitespace\<close>: the outer loop runs its body once more exactly when the
  body found a \<^verbatim>\<open>#\<close> and skipped the rest of that line.
\<close>

lemma skip_comment_progress:
  assumes "p = scan_while is_whitespace inp pos" "p < length inp \<and> inp ! p = CHR ''#''"
  shows "length inp - scan_while (\<lambda>c. c \<noteq> CHR 0x0A) inp p < length inp - pos"
proof -
  from assms have "p < scan_while (\<lambda>c. c \<noteq> CHR 0x0A) inp p"
    by (intro scan_while_step) auto
  moreover from assms have "pos \<le> p" by (simp add: scan_while_ge)
  ultimately show ?thesis using assms by linarith
qed

function skip_comments_and_whitespace :: "string \<Rightarrow> nat \<Rightarrow> nat" where
  "skip_comments_and_whitespace inp pos =
     (let p = scan_while is_whitespace inp pos in
      if p < length inp \<and> inp ! p = CHR ''#''
      then skip_comments_and_whitespace inp (scan_while (\<lambda>c. c \<noteq> CHR 0x0A) inp p)
      else p)"
  by pat_completeness auto
termination
  by (relation "measure (\<lambda>(inp, pos). length inp - pos)") (auto intro: skip_comment_progress)

declare skip_comments_and_whitespace.simps [simp del]

text \<open>
  \<^verbatim>\<open>tokenize_multiline_string\<close>: the scan for the closing triple quote, then the test for
  having run out of input.
\<close>

function scan_triple :: "string \<Rightarrow> nat \<Rightarrow> nat" where
  "scan_triple inp pos =
     (if pos + 2 < length inp \<and> substr inp pos 3 \<noteq> triple_quote
      then scan_triple inp (pos + 1) else pos)"
  by pat_completeness auto
termination
  by (relation "measure (\<lambda>(inp, pos). length inp - pos)") auto

declare scan_triple.simps [simp del]

lemma scan_triple_code [code]:
  "scan_triple inp pos =
     (if pos + 2 < length inp \<and> substr inp pos 3 \<noteq> triple_quote
      then scan_triple inp (Suc pos) else pos)"
  by (subst scan_triple.simps) simp

definition tokenize_multiline_string :: "string \<Rightarrow> nat \<Rightarrow> Token option \<times> nat" where
  "tokenize_multiline_string inp pos0 =
     (let start = pos0 + 3;
          pos = scan_triple inp start
      in if pos + 2 \<ge> length inp then (None, pos)
         else (Some (StringLiteral (substr inp start (pos - start))), pos + 3))"

definition tokenize_string :: "string \<Rightarrow> nat \<Rightarrow> Token option \<times> nat" where
  "tokenize_string inp pos0 =
     (let start = pos0 + 1;
          pos = scan_while (\<lambda>c. c \<noteq> dquote) inp start
      in if pos \<ge> length inp then (None, pos)
         else (Some (StringLiteral (substr inp start (pos - start))), pos + 1))"

definition keyword_or_identifier :: "string \<Rightarrow> Token" where
  "keyword_or_identifier name =
     (if name = ''and'' then Keyword And
      else if name = ''else'' then Keyword Else
      else if name = ''load'' then Keyword Load
      else if name = ''break'' then Keyword Break
      else if name = ''for'' then Keyword For
      else if name = ''not'' then Keyword Not_kw
      else if name = ''continue'' then Keyword Continue
      else if name = ''if'' then Keyword If_kw
      else if name = ''or'' then Keyword Or
      else if name = ''def'' then Keyword Def
      else if name = ''in'' then Keyword In
      else if name = ''pass'' then Keyword Pass
      else if name = ''elif'' then Keyword Elif
      else if name = ''lambda'' then Keyword Lambda
      else if name = ''return'' then Keyword Return
      else Identifier name)"

definition tokenize_identifier :: "string \<Rightarrow> nat \<Rightarrow> Token option \<times> nat" where
  "tokenize_identifier inp start =
     (let pos = scan_while (\<lambda>c. is_alpha c \<or> is_digit c) inp start;
          name = substr inp start (pos - start)
      in (Some (keyword_or_identifier name), pos))"

text \<open>
  The punctuator table as \<^verbatim>\<open>std::to_array\<close> lists it, before sorting: 40 entries. The
  enumerator \<^const>\<open>DoubleSlashEquals\<close> has no entry.
\<close>

definition punctuators :: "(string \<times> Punctuator) list" where
  "punctuators =
    [(''+'', Plus), (''-'', Minus), (''*'', Star), (''/'', Slash), (''//'', DoubleSlash),
     (''%'', Percent), (''**'', DoubleStar), (''&'', Ampersand), (''|'', Pipe),
     (''^'', Caret), (''<<'', LShift), (''>>'', RShift), (''.'', Dot), ('','', Comma),
     (''='', Equals), ('';'', Semicolon), ('':'', Colon), (''('', LParen), ('')'', RParen),
     (''['', LBracket), ('']'', RBracket), (''{'', LBrace), (''}'', RBrace), (''<'', Less),
     (''>'', Greater), (''=='', EqualEqual), (''!='', NotEqual), (''+='', PlusEquals),
     (''-='', MinusEquals), (''*='', StarEquals), (''/='', SlashEquals),
     (''%='', PercentEquals), (''~'', Tilde), (''&='', AmpersandEquals),
     (''|='', PipeEquals), (''^='', CaretEquals), (''<='', LessOrEqual),
     (''<<='', LShiftEquals), (''>='', GreaterOrEqual), (''>>='', RShiftEquals)]"

text \<open>
  \<^verbatim>\<open>std::ranges::sort\<close> with the comparison \<^verbatim>\<open>a.size() > b.size()\<close> on the spellings: the
  table in descending order of spelling length. The sort is not stable, so the order among
  spellings of one length is the library's choice; \<open>kPunctuators\<close> fixes one such order, and
  lemma \<open>match_punctuator_any_order\<close> below shows that the choice cannot be observed.
\<close>

definition by_length_desc :: "(string \<times> Punctuator) list \<Rightarrow> bool" where
  "by_length_desc ps \<longleftrightarrow> sorted_wrt (\<lambda>a b. \<not> length (fst b) > length (fst a)) ps"

definition kPunctuators :: "(string \<times> Punctuator) list" where
  "kPunctuators = rev (sort_key (\<lambda>e. length (fst e)) punctuators)"

text \<open>The \<^verbatim>\<open>for\<close> loop over the sorted table: the first entry that matches at the cursor.\<close>

fun match_punctuator ::
  "(string \<times> Punctuator) list \<Rightarrow> string \<Rightarrow> nat \<Rightarrow> Token option \<times> nat" where
  "match_punctuator [] inp pos = (None, pos)"
| "match_punctuator ((str, punctuator) # rest) inp pos =
     (if substr inp pos (length str) = str then (Some (Punctuator punctuator), pos + length str)
      else match_punctuator rest inp pos)"

definition tokenize_punctuator :: "string \<Rightarrow> nat \<Rightarrow> Token option \<times> nat" where
  "tokenize_punctuator inp pos = match_punctuator kPunctuators inp pos"

text \<open>\<^verbatim>\<open>Tokenizer::tokenize\<close>: one token, or \<^const>\<open>Eof\<close>, or failure.\<close>

definition Tokenizer_tokenize :: "string \<Rightarrow> nat \<Rightarrow> Token option \<times> nat" where
  "Tokenizer_tokenize inp pos0 =
     (let pos = skip_comments_and_whitespace inp pos0 in
      if pos \<ge> length inp then (Some Eof, pos)
      else if substr inp pos 3 = triple_quote then tokenize_multiline_string inp pos
      else if inp ! pos = dquote then tokenize_string inp pos
      else if is_alpha (inp ! pos) then tokenize_identifier inp pos
      else tokenize_punctuator inp pos)"

subsection \<open>The cursor after one call\<close>

lemma skip_comments_and_whitespace_ge: "pos \<le> skip_comments_and_whitespace inp pos"
proof (induction inp pos rule: skip_comments_and_whitespace.induct)
  case (1 inp pos)
  define p where "p = scan_while is_whitespace inp pos"
  have a: "pos \<le> p" unfolding p_def by (rule scan_while_ge)
  show ?case
  proof (cases "p < length inp \<and> inp ! p = CHR ''#''")
    case True
    with 1 p_def have "scan_while (\<lambda>c. c \<noteq> CHR 0x0A) inp p
        \<le> skip_comments_and_whitespace inp (scan_while (\<lambda>c. c \<noteq> CHR 0x0A) inp p)"
      by simp
    moreover have "p \<le> scan_while (\<lambda>c. c \<noteq> CHR 0x0A) inp p" by (rule scan_while_ge)
    moreover from True have "skip_comments_and_whitespace inp pos =
        skip_comments_and_whitespace inp (scan_while (\<lambda>c. c \<noteq> CHR 0x0A) inp p)"
      by (subst skip_comments_and_whitespace.simps) (simp add: p_def Let_def)
    ultimately show ?thesis using a by simp
  next
    case False
    then have "skip_comments_and_whitespace inp pos = p"
      by (subst skip_comments_and_whitespace.simps) (auto simp: p_def Let_def)
    with a show ?thesis by simp
  qed
qed

lemma skip_comments_and_whitespace_le:
  "pos \<le> length inp \<Longrightarrow> skip_comments_and_whitespace inp pos \<le> length inp"
proof (induction inp pos rule: skip_comments_and_whitespace.induct)
  case (1 inp pos)
  define p where "p = scan_while is_whitespace inp pos"
  have a: "p \<le> length inp" unfolding p_def using 1(2) by (rule scan_while_le)
  show ?case
  proof (cases "p < length inp \<and> inp ! p = CHR ''#''")
    case True
    have "scan_while (\<lambda>c. c \<noteq> CHR 0x0A) inp p \<le> length inp"
      using a by (rule scan_while_le)
    with 1 True p_def have
      "skip_comments_and_whitespace inp (scan_while (\<lambda>c. c \<noteq> CHR 0x0A) inp p) \<le> length inp"
      by simp
    moreover from True have "skip_comments_and_whitespace inp pos =
        skip_comments_and_whitespace inp (scan_while (\<lambda>c. c \<noteq> CHR 0x0A) inp p)"
      by (subst skip_comments_and_whitespace.simps) (simp add: p_def Let_def)
    ultimately show ?thesis by simp
  next
    case False
    then have "skip_comments_and_whitespace inp pos = p"
      by (subst skip_comments_and_whitespace.simps) (auto simp: p_def Let_def)
    with a show ?thesis by simp
  qed
qed

lemma scan_triple_ge: "pos \<le> scan_triple inp pos"
proof (induction inp pos rule: scan_triple.induct)
  case (1 inp pos)
  show ?case
  proof (cases "pos + 2 < length inp \<and> substr inp pos 3 \<noteq> triple_quote")
    case True
    with 1 have "pos + 1 \<le> scan_triple inp (pos + 1)" by simp
    with True show ?thesis by (subst scan_triple.simps) simp
  next
    case False
    then show ?thesis by (subst scan_triple.simps) auto
  qed
qed

lemma scan_triple_le: "pos \<le> length inp \<Longrightarrow> scan_triple inp pos \<le> length inp"
proof (induction inp pos rule: scan_triple.induct)
  case (1 inp pos)
  show ?case
  proof (cases "pos + 2 < length inp \<and> substr inp pos 3 \<noteq> triple_quote")
    case True
    with 1 have "scan_triple inp (pos + 1) \<le> length inp" by simp
    with True show ?thesis by (subst scan_triple.simps) simp
  next
    case False
    with 1 show ?thesis by (subst scan_triple.simps) auto
  qed
qed

lemma substr_eq_length:
  "substr inp pos n = s \<Longrightarrow> length s = n \<Longrightarrow> 0 < n \<Longrightarrow> pos + n \<le> length inp"
  by (auto simp: substr_def)

lemma tokenize_multiline_string_bounds:
  assumes "tokenize_multiline_string inp pos = (r, pos')" "substr inp pos 3 = triple_quote"
  shows "pos < pos' \<and> pos' \<le> length inp"
proof -
  from assms(2) have b: "pos + 3 \<le> length inp"
    by (rule substr_eq_length) (simp_all add: triple_quote_def)
  have "pos + 3 \<le> scan_triple inp (pos + 3)" by (rule scan_triple_ge)
  moreover from b have "scan_triple inp (pos + 3) \<le> length inp" by (rule scan_triple_le)
  ultimately show ?thesis using assms(1)
    by (auto simp: tokenize_multiline_string_def Let_def split: if_splits)
qed

lemma tokenize_string_bounds:
  assumes "tokenize_string inp pos = (r, pos')" "pos < length inp"
  shows "pos < pos' \<and> pos' \<le> length inp"
proof -
  have "pos + 1 \<le> scan_while (\<lambda>c. c \<noteq> dquote) inp (pos + 1)" by (rule scan_while_ge)
  moreover from assms(2) have "scan_while (\<lambda>c. c \<noteq> dquote) inp (pos + 1) \<le> length inp"
    by (intro scan_while_le) simp
  ultimately show ?thesis using assms(1)
    by (auto simp: tokenize_string_def Let_def split: if_splits)
qed

lemma tokenize_identifier_bounds:
  assumes "tokenize_identifier inp pos = (r, pos')" "pos < length inp" "is_alpha (inp ! pos)"
  shows "pos < pos' \<and> pos' \<le> length inp"
proof -
  from assms(2,3) have "pos < scan_while (\<lambda>c. is_alpha c \<or> is_digit c) inp pos"
    by (intro scan_while_step) auto
  moreover from assms(2) have "scan_while (\<lambda>c. is_alpha c \<or> is_digit c) inp pos \<le> length inp"
    by (intro scan_while_le) simp
  ultimately show ?thesis using assms(1)
    by (auto simp: tokenize_identifier_def Let_def)
qed

lemma match_punctuator_bounds:
  assumes "match_punctuator ps inp pos = (r, pos')" "\<forall>e \<in> set ps. fst e \<noteq> []"
    "pos \<le> length inp"
  shows "pos \<le> pos' \<and> pos' \<le> length inp \<and> (r \<noteq> None \<longrightarrow> pos < pos')"
  using assms
proof (induction ps)
  case Nil
  then show ?case by simp
next
  case (Cons e ps)
  obtain str p where e: "e = (str, p)" by (cases e)
  show ?case
  proof (cases "substr inp pos (length str) = str")
    case True
    from Cons.prems e have ne: "str \<noteq> []" by simp
    with True have "pos + length str \<le> length inp" by (intro substr_eq_length) simp_all
    with ne show ?thesis using Cons.prems True e by auto
  next
    case False
    with Cons e show ?thesis by simp
  qed
qed

lemma set_kPunctuators: "set kPunctuators = set punctuators"
  by (simp add: kPunctuators_def)

lemma punctuators_nonempty: "\<forall>e \<in> set punctuators. fst e \<noteq> []"
  by (simp add: punctuators_def)

lemma tokenize_punctuator_bounds:
  assumes "tokenize_punctuator inp pos = (r, pos')" "pos \<le> length inp"
  shows "pos \<le> pos' \<and> pos' \<le> length inp \<and> (r \<noteq> None \<longrightarrow> pos < pos')"
  using assms(1) unfolding tokenize_punctuator_def
  by (rule match_punctuator_bounds) (simp_all add: set_kPunctuators punctuators_nonempty assms(2))

lemma keyword_or_identifier_not_Eof: "keyword_or_identifier name \<noteq> Eof"
  by (simp add: keyword_or_identifier_def)

lemma Tokenizer_tokenize_cases:
  assumes "Tokenizer_tokenize inp pos0 = (r, pos')"
  shows "(r = Some Eof \<and> pos' = skip_comments_and_whitespace inp pos0 \<and> length inp \<le> pos')
       \<or> (r \<noteq> Some Eof \<and> skip_comments_and_whitespace inp pos0 < length inp
           \<and> skip_comments_and_whitespace inp pos0 \<le> pos' \<and> pos' \<le> length inp
           \<and> (r \<noteq> None \<longrightarrow> skip_comments_and_whitespace inp pos0 < pos'))"
proof -
  define pos where "pos = skip_comments_and_whitespace inp pos0"
  show ?thesis
  proof (cases "pos \<ge> length inp")
    case True
    with assms show ?thesis by (simp add: Tokenizer_tokenize_def pos_def Let_def)
  next
    case False
    then have lt: "pos < length inp" by simp
    consider (ml) "substr inp pos 3 = triple_quote"
      | (str) "substr inp pos 3 \<noteq> triple_quote" "inp ! pos = dquote"
      | (ident) "substr inp pos 3 \<noteq> triple_quote" "inp ! pos \<noteq> dquote" "is_alpha (inp ! pos)"
      | (punct) "substr inp pos 3 \<noteq> triple_quote" "inp ! pos \<noteq> dquote" "\<not> is_alpha (inp ! pos)"
      by blast
    then show ?thesis
    proof cases
      case ml
      with assms lt have eq: "tokenize_multiline_string inp pos = (r, pos')"
        by (simp add: Tokenizer_tokenize_def pos_def Let_def)
      from tokenize_multiline_string_bounds[OF eq ml] eq lt show ?thesis
        unfolding pos_def[symmetric]
        by (auto simp: tokenize_multiline_string_def Let_def split: if_splits)
    next
      case str
      with assms lt have eq: "tokenize_string inp pos = (r, pos')"
        by (simp add: Tokenizer_tokenize_def pos_def Let_def)
      from tokenize_string_bounds[OF eq lt] eq lt show ?thesis
        unfolding pos_def[symmetric]
        by (auto simp: tokenize_string_def Let_def split: if_splits)
    next
      case ident
      with assms lt have eq: "tokenize_identifier inp pos = (r, pos')"
        by (simp add: Tokenizer_tokenize_def pos_def Let_def)
      from tokenize_identifier_bounds[OF eq lt ident(3)] eq lt show ?thesis
        unfolding pos_def[symmetric]
        by (auto simp: tokenize_identifier_def Let_def keyword_or_identifier_not_Eof)
    next
      case punct
      with assms lt have eq: "tokenize_punctuator inp pos = (r, pos')"
        by (simp add: Tokenizer_tokenize_def pos_def Let_def)
      have "r \<noteq> Some Eof"
      proof -
        have "\<And>ps. fst (match_punctuator ps inp pos) \<noteq> Some Eof"
          subgoal for ps by (induction ps) (auto split: if_splits)
          done
        from this[of kPunctuators] eq show ?thesis by (simp add: tokenize_punctuator_def)
      qed
      with tokenize_punctuator_bounds[OF eq] lt show ?thesis
        unfolding pos_def[symmetric] by auto
    qed
  qed
qed

lemma Tokenizer_tokenize_mono:
  "Tokenizer_tokenize inp pos = (r, pos') \<Longrightarrow> pos \<le> pos'"
  using Tokenizer_tokenize_cases[of inp pos r pos'] skip_comments_and_whitespace_ge[of pos inp]
  by auto

lemma Tokenizer_tokenize_bounds:
  "Tokenizer_tokenize inp pos = (r, pos') \<Longrightarrow> pos \<le> length inp \<Longrightarrow> pos' \<le> length inp"
  using Tokenizer_tokenize_cases[of inp pos r pos'] skip_comments_and_whitespace_le[of pos inp]
  by auto

lemma Tokenizer_tokenize_progress:
  "Tokenizer_tokenize inp pos = (Some tok, pos') \<Longrightarrow> tok \<noteq> Eof \<Longrightarrow> pos < pos' \<and> pos' \<le> length inp"
  using Tokenizer_tokenize_cases[of inp pos "Some tok" pos'] skip_comments_and_whitespace_ge[of pos inp]
  by auto

text \<open>
  The free function \<^verbatim>\<open>tokenize\<close>: the loop that collects tokens up to \<^const>\<open>Eof\<close>. It is
  total because every token other than \<^const>\<open>Eof\<close> moves the cursor forward.
\<close>

function tokenize_loop :: "string \<Rightarrow> nat \<Rightarrow> Token list \<Rightarrow> Token list option" where
  "tokenize_loop inp pos tokens =
     (case Tokenizer_tokenize inp pos of
        (None, _) \<Rightarrow> None
      | (Some token, pos') \<Rightarrow>
          if token = Eof then Some tokens
          else tokenize_loop inp pos' (tokens @ [token]))"
  by pat_completeness auto
termination
  apply (relation "measure (\<lambda>(inp, pos, tokens). length inp - pos)")
   apply simp
  apply (simp, drule sym, drule Tokenizer_tokenize_progress, simp, linarith)
  done

declare tokenize_loop.simps [simp del]

definition tokenize :: "string \<Rightarrow> Token list option" where
  "tokenize inp = tokenize_loop inp 0 []"

section \<open>The parser (starlark/parser.h)\<close>

record LoadStmt =
  "module_name" :: string
  symbols :: "(string \<times> string) list"

text \<open>\<^verbatim>\<open>Statement\<close> is a variant with the single alternative \<^verbatim>\<open>LoadStmt\<close>.\<close>

datatype Statement = Load_statement LoadStmt

record Program =
  statements :: "Statement list"

text \<open>
  The parser owns a tokenizer, so its member functions thread the same cursor. Diagnostics
  written to \<^verbatim>\<open>std::cerr\<close> are not part of the result and are left out. The comparison
  \<^verbatim>\<open>next_token != expected\<close> of \<^verbatim>\<open>expect_next_token\<close> is equality of the variant: the same
  alternative with the same value.
\<close>

definition expect_next_token :: "string \<Rightarrow> nat \<Rightarrow> Token \<Rightarrow> bool \<times> nat" where
  "expect_next_token inp pos expected =
     (case Tokenizer_tokenize inp pos of
        (None, pos') \<Rightarrow> (False, pos')
      | (Some next_token, pos') \<Rightarrow> (next_token = expected, pos'))"

text \<open>\<^verbatim>\<open>next_token_as<token::StringLiteral>\<close>, the only instance in use; it yields the value.\<close>

definition next_token_as_StringLiteral :: "string \<Rightarrow> nat \<Rightarrow> string option \<times> nat" where
  "next_token_as_StringLiteral inp pos =
     (case Tokenizer_tokenize inp pos of
        (None, pos') \<Rightarrow> (None, pos')
      | (Some next_token, pos') \<Rightarrow>
          (case next_token of StringLiteral v \<Rightarrow> (Some v, pos') | _ \<Rightarrow> (None, pos')))"

lemma expect_next_token_mono: "expect_next_token inp pos e = (b, pos') \<Longrightarrow> pos \<le> pos'"
  by (auto simp: expect_next_token_def split: prod.splits option.splits
      dest: Tokenizer_tokenize_mono)

lemma next_token_as_StringLiteral_progress:
  "next_token_as_StringLiteral inp pos = (Some v, pos') \<Longrightarrow> pos < pos' \<and> pos' \<le> length inp"
  by (auto simp: next_token_as_StringLiteral_def split: prod.splits option.splits Token.splits
      dest: Tokenizer_tokenize_progress)

lemma load_symbols_decreases_string:
  assumes "(Some (Punctuator p), pos1) = Tokenizer_tokenize inp pos"
    and "(Some (StringLiteral v), pos2) = Tokenizer_tokenize inp pos1"
  shows "length inp - pos2 < length inp - pos"
  using Tokenizer_tokenize_progress[OF assms(1)[symmetric]]
    Tokenizer_tokenize_progress[OF assms(2)[symmetric]]
  by auto

lemma load_symbols_decreases_identifier:
  assumes "(Some (Punctuator p), pos1) = Tokenizer_tokenize inp pos"
    and "(Some (Identifier name), pos2) = Tokenizer_tokenize inp pos1"
    and "(ok, pos3) = expect_next_token inp pos2 (Punctuator Equals)"
    and "(Some v, pos4) = next_token_as_StringLiteral inp pos3"
  shows "length inp - pos4 < length inp - pos"
  using Tokenizer_tokenize_progress[OF assms(1)[symmetric]]
    Tokenizer_tokenize_progress[OF assms(2)[symmetric]]
    expect_next_token_mono[OF assms(3)[symmetric]]
    next_token_as_StringLiteral_progress[OF assms(4)[symmetric]]
  by auto

text \<open>
  The \<^verbatim>\<open>while (true)\<close> loop of \<^verbatim>\<open>parse_load_stmt\<close> over the symbol list. It returns the
  symbols and the cursor when it leaves through \<^verbatim>\<open>break\<close>, and \<^const>\<open>None\<close> for each
  \<^verbatim>\<open>return std::nullopt\<close>.
\<close>

function load_symbols ::
  "string \<Rightarrow> nat \<Rightarrow> (string \<times> string) list \<Rightarrow> ((string \<times> string) list \<times> nat) option" where
  "load_symbols inp pos syms =
     (case Tokenizer_tokenize inp pos of
        (None, _) \<Rightarrow> None
      | (Some maybe_comma_or_rparen, pos1) \<Rightarrow>
          (case maybe_comma_or_rparen of
             Punctuator comma_or_rparen \<Rightarrow>
               if comma_or_rparen = RParen then Some (syms, pos1)
               else if comma_or_rparen \<noteq> Comma then None
               else
                 (case Tokenizer_tokenize inp pos1 of
                    (None, _) \<Rightarrow> None
                  | (Some maybe_ident_or_symbol, pos2) \<Rightarrow>
                      (case maybe_ident_or_symbol of
                         StringLiteral v \<Rightarrow> load_symbols inp pos2 (syms @ [(v, v)])
                       | Identifier name \<Rightarrow>
                           (case expect_next_token inp pos2 (Punctuator Equals) of
                              (False, _) \<Rightarrow> None
                            | (True, pos3) \<Rightarrow>
                                (case next_token_as_StringLiteral inp pos3 of
                                   (None, _) \<Rightarrow> None
                                 | (Some v, pos4) \<Rightarrow>
                                     load_symbols inp pos4 (syms @ [(name, v)])))
                       | _ \<Rightarrow> None))
           | _ \<Rightarrow> None))"
  by pat_completeness auto
termination
  apply (relation "measure (\<lambda>(inp, pos, syms). length inp - pos)")
    apply simp
    apply simp_all
   apply (erule (3) load_symbols_decreases_identifier)
  apply (erule (1) load_symbols_decreases_string)
  done

declare load_symbols.simps [simp del]

text \<open>\<^verbatim>\<open>Parser::parse_load_stmt\<close>; the caller has consumed \<^verbatim>\<open>load\<close>.\<close>

definition parse_load_stmt :: "string \<Rightarrow> nat \<Rightarrow> (LoadStmt \<times> nat) option" where
  "parse_load_stmt inp pos =
     (case Tokenizer_tokenize inp pos of
        (None, _) \<Rightarrow> None
      | (Some lparen, pos1) \<Rightarrow>
          if lparen \<noteq> Punctuator LParen then None
          else
            (case Tokenizer_tokenize inp pos1 of
               (None, _) \<Rightarrow> None
             | (Some mname, pos2) \<Rightarrow>
                 (case mname of
                    StringLiteral m \<Rightarrow>
                      (case load_symbols inp pos2 [] of
                         None \<Rightarrow> None
                       | Some (syms, pos3) \<Rightarrow>
                           if syms = [] then None
                           else Some (\<lparr>module_name = m, symbols = syms\<rparr>, pos3))
                  | _ \<Rightarrow> None)))"

lemma load_symbols_mono: "load_symbols inp pos syms = Some (syms', pos') \<Longrightarrow> pos \<le> pos'"
proof (induction inp pos syms rule: load_symbols.induct)
  case (1 inp pos syms)
  show ?case using "1.prems" "1.IH"
    by (subst (asm) load_symbols.simps)
      (fastforce split: prod.splits option.splits Token.splits if_splits bool.splits
        dest!: Tokenizer_tokenize_mono expect_next_token_mono
          next_token_as_StringLiteral_progress)
qed

lemma parse_load_stmt_mono: "parse_load_stmt inp pos = Some (stmt, pos') \<Longrightarrow> pos \<le> pos'"
  by (auto simp: parse_load_stmt_def split: prod.splits option.splits Token.splits if_splits
      dest!: Tokenizer_tokenize_mono load_symbols_mono)

lemma parse_loop_decreases:
  assumes "(Some (Keyword Load), pos1) = Tokenizer_tokenize inp pos"
    and "parse_load_stmt inp pos1 = Some x" and "(load, pos2) = x"
  shows "length inp - pos2 < length inp - pos"
  using Tokenizer_tokenize_progress[OF assms(1)[symmetric]]
    parse_load_stmt_mono[of inp pos1 load pos2] assms(2,3)
  by auto

text \<open>
  \<^verbatim>\<open>Parser::parse\<close>: the statement loop. The \<^verbatim>\<open>for\<close> loop ends when the tokenizer fails
  or through \<^verbatim>\<open>break\<close> on a keyword other than \<^verbatim>\<open>load\<close>; both paths reach the final
  \<^verbatim>\<open>return std::nullopt\<close>.
\<close>

function parse_loop :: "string \<Rightarrow> nat \<Rightarrow> Program \<Rightarrow> Program option" where
  "parse_loop inp pos program =
     (case Tokenizer_tokenize inp pos of
        (None, _) \<Rightarrow> None
      | (Some token, pos1) \<Rightarrow>
          if token = Eof then Some program
          else
            (case token of
               Keyword kw \<Rightarrow>
                 if kw = Load then
                   (case parse_load_stmt inp pos1 of
                      None \<Rightarrow> None
                    | Some (load, pos2) \<Rightarrow>
                        parse_loop inp pos2
                          (program\<lparr>statements := statements program @ [Load_statement load]\<rparr>))
                 else None
             | _ \<Rightarrow> None))"
  by pat_completeness auto
termination
  apply (relation "measure (\<lambda>(inp, pos, program). length inp - pos)")
   apply simp_all
  apply (erule (2) parse_loop_decreases)
  done

declare parse_loop.simps [simp del]

definition parse :: "string \<Rightarrow> Program option" where
  "parse inp = parse_loop inp 0 \<lparr>statements = []\<rparr>"

section \<open>Properties\<close>

subsection \<open>The order of the punctuator table among spellings of one length\<close>

definition matches_at :: "string \<Rightarrow> nat \<Rightarrow> string \<Rightarrow> bool" where
  "matches_at inp pos str \<longleftrightarrow> substr inp pos (length str) = str"

lemma match_punctuator_None:
  "match_punctuator ps inp pos = (None, pos') \<Longrightarrow>
     pos' = pos \<and> (\<forall>e \<in> set ps. \<not> matches_at inp pos (fst e))"
proof (induction ps)
  case Nil
  then show ?case by simp
next
  case (Cons e ps)
  obtain s0 p0 where e: "e = (s0, p0)" by (cases e)
  from Cons.prems e have nm: "\<not> matches_at inp pos s0"
    by (auto simp: matches_at_def split: if_splits)
  with Cons.prems e have "match_punctuator ps inp pos = (None, pos')"
    by (simp add: matches_at_def)
  with Cons.IH nm e show ?case by simp
qed

lemma match_punctuator_longest:
  "by_length_desc ps \<Longrightarrow> match_punctuator ps inp pos = (Some t, pos') \<Longrightarrow>
     \<exists>str p. t = Punctuator p \<and> (str, p) \<in> set ps \<and> matches_at inp pos str
       \<and> pos' = pos + length str
       \<and> (\<forall>e \<in> set ps. matches_at inp pos (fst e) \<longrightarrow> length (fst e) \<le> length str)"
proof (induction ps)
  case Nil
  then show ?case by simp
next
  case (Cons e ps)
  obtain s0 p0 where e: "e = (s0, p0)" by (cases e)
  show ?case
  proof (cases "matches_at inp pos s0")
    case True
    with Cons.prems(2) e have t: "t = Punctuator p0" "pos' = pos + length s0"
      by (auto simp: matches_at_def)
    from Cons.prems(1) e have "\<forall>x \<in> set ps. length (fst x) \<le> length s0"
      by (auto simp: by_length_desc_def)
    with e have "\<forall>x \<in> set (e # ps). matches_at inp pos (fst x) \<longrightarrow> length (fst x) \<le> length s0"
      by simp
    moreover have "(s0, p0) \<in> set (e # ps)" using e by simp
    ultimately show ?thesis using t True by blast
  next
    case False
    with Cons.prems e have "match_punctuator ps inp pos = (Some t, pos')"
      by (simp add: matches_at_def)
    moreover from Cons.prems have "by_length_desc ps" by (simp add: by_length_desc_def)
    ultimately obtain str p where sp: "t = Punctuator p" "(str, p) \<in> set ps"
      "matches_at inp pos str" "pos' = pos + length str"
      "\<forall>e \<in> set ps. matches_at inp pos (fst e) \<longrightarrow> length (fst e) \<le> length str"
      using Cons.IH by blast
    from sp(5) False e
    have "\<forall>x \<in> set (e # ps). matches_at inp pos (fst x) \<longrightarrow> length (fst x) \<le> length str"
      by simp
    moreover from sp(2) have "(str, p) \<in> set (e # ps)" by simp
    ultimately show ?thesis using sp(1,3,4) by blast
  qed
qed

lemma match_punctuator_Some:
  "match_punctuator ps inp pos = (Some t, pos') \<Longrightarrow>
     \<exists>str p. t = Punctuator p \<and> (str, p) \<in> set ps \<and> matches_at inp pos str
       \<and> pos' = pos + length str"
proof (induction ps)
  case Nil
  then show ?case by simp
next
  case (Cons e ps)
  obtain s0 p0 where e: "e = (s0, p0)" by (cases e)
  show ?case
  proof (cases "matches_at inp pos s0")
    case True
    with Cons.prems e have "t = Punctuator p0" "pos' = pos + length s0"
      by (auto simp: matches_at_def)
    moreover have "(s0, p0) \<in> set (e # ps)" using e by simp
    ultimately show ?thesis using True by blast
  next
    case False
    with Cons.prems e have "match_punctuator ps inp pos = (Some t, pos')"
      by (simp add: matches_at_def)
    then obtain str p where sp: "t = Punctuator p" "(str, p) \<in> set ps"
      "matches_at inp pos str" "pos' = pos + length str"
      using Cons.IH by blast
    from sp(2) have "(str, p) \<in> set (e # ps)" by simp
    with sp(1,3,4) show ?thesis by blast
  qed
qed

lemma matches_at_same_length:
  "matches_at inp pos s \<Longrightarrow> matches_at inp pos s' \<Longrightarrow> length s = length s' \<Longrightarrow> s = s'"
  by (metis matches_at_def)

lemma distinct_punctuators: "distinct (map fst punctuators)"
  by code_simp

lemma by_length_desc_kPunctuators: "by_length_desc kPunctuators"
  unfolding by_length_desc_def by code_simp

lemma match_punctuator_order_irrelevant:
  assumes "set ps = set qs" "distinct (map fst qs)" "by_length_desc ps" "by_length_desc qs"
  shows "match_punctuator ps inp pos = match_punctuator qs inp pos"
proof -
  obtain r pos' where ps: "match_punctuator ps inp pos = (r, pos')"
    by (cases "match_punctuator ps inp pos")
  obtain r' pos'' where qs: "match_punctuator qs inp pos = (r', pos'')"
    by (cases "match_punctuator qs inp pos")
  show ?thesis
  proof (cases r)
    case None
    from match_punctuator_None[OF ps[unfolded None]] assms(1)
    have "pos' = pos" and no: "\<forall>e \<in> set qs. \<not> matches_at inp pos (fst e)" by auto
    have "r' = None"
    proof (cases r')
      case (Some t)
      with match_punctuator_Some[of qs inp pos t pos''] qs no show ?thesis by force
    qed simp
    with match_punctuator_None[of qs inp pos pos''] \<open>pos' = pos\<close> None ps qs show ?thesis by simp
  next
    case (Some t)
    from match_punctuator_longest[OF assms(3) ps[unfolded Some]]
    obtain str p where sp: "t = Punctuator p" "(str, p) \<in> set ps"
      "matches_at inp pos str" "pos' = pos + length str"
      "\<forall>e \<in> set ps. matches_at inp pos (fst e) \<longrightarrow> length (fst e) \<le> length str"
      by blast
    have "r' \<noteq> None"
    proof
      assume "r' = None"
      from match_punctuator_None[OF qs[unfolded this]] sp(2,3) assms(1) show False by force
    qed
    then obtain t' where r': "r' = Some t'" by auto
    from match_punctuator_longest[OF assms(4) qs[unfolded r']]
    obtain str' p' where sp': "t' = Punctuator p'" "(str', p') \<in> set qs"
      "matches_at inp pos str'" "pos'' = pos + length str'"
      "\<forall>e \<in> set qs. matches_at inp pos (fst e) \<longrightarrow> length (fst e) \<le> length str'"
      by blast
    from sp(2,3) sp'(5) assms(1) have "length str \<le> length str'" by force
    moreover from sp'(2,3) sp(5) assms(1) have "length str' \<le> length str" by force
    ultimately have "str = str'" using sp(3) sp'(3) by (intro matches_at_same_length) auto
    with sp(2) sp'(2) assms(1,2) have "p = p'"
      by (metis eq_key_imp_eq_value)
    with \<open>str = str'\<close> sp sp' ps qs Some r' show ?thesis by simp
  qed
qed

text \<open>
  Whatever order \<^verbatim>\<open>std::ranges::sort\<close> leaves the table in (a permutation of the 40 entries,
  in descending order of length), the loop over it gives the result of the loop over
  \<^const>\<open>kPunctuators\<close>.
\<close>

lemma match_punctuator_any_order:
  assumes "mset ps = mset punctuators" "by_length_desc ps"
  shows "match_punctuator ps inp pos = match_punctuator kPunctuators inp pos"
proof (rule match_punctuator_order_irrelevant)
  from assms(1) have "set ps = set punctuators" by (rule mset_eq_setD)
  then show "set ps = set kPunctuators" by (simp add: set_kPunctuators)
  have "mset (map fst kPunctuators) = mset (map fst punctuators)"
    by (simp add: kPunctuators_def)
  then show "distinct (map fst kPunctuators)"
    using distinct_punctuators by (metis mset_eq_imp_distinct_iff)
qed (use assms(2) by_length_desc_kPunctuators in auto)

subsection \<open>Steps of the symbol loop\<close>

lemma load_symbols_RParen:
  "Tokenizer_tokenize inp pos = (Some (Punctuator RParen), pos1) \<Longrightarrow>
     load_symbols inp pos syms = Some (syms, pos1)"
  by (subst load_symbols.simps) simp

lemma load_symbols_string:
  "Tokenizer_tokenize inp pos = (Some (Punctuator Comma), pos1) \<Longrightarrow>
   Tokenizer_tokenize inp pos1 = (Some (StringLiteral v), pos2) \<Longrightarrow>
     load_symbols inp pos syms = load_symbols inp pos2 (syms @ [(v, v)])"
  by (subst load_symbols.simps) simp

lemma load_symbols_identifier:
  "Tokenizer_tokenize inp pos = (Some (Punctuator Comma), pos1) \<Longrightarrow>
   Tokenizer_tokenize inp pos1 = (Some (Identifier name), pos2) \<Longrightarrow>
   Tokenizer_tokenize inp pos2 = (Some (Punctuator Equals), pos3) \<Longrightarrow>
   Tokenizer_tokenize inp pos3 = (Some (StringLiteral v), pos4) \<Longrightarrow>
     load_symbols inp pos syms = load_symbols inp pos4 (syms @ [(name, v)])"
  by (subst load_symbols.simps)
    (simp add: expect_next_token_def next_token_as_StringLiteral_def)

lemma load_symbols_comma_RParen:
  "Tokenizer_tokenize inp pos = (Some (Punctuator Comma), pos1) \<Longrightarrow>
   Tokenizer_tokenize inp pos1 = (Some (Punctuator p), pos2) \<Longrightarrow>
     load_symbols inp pos syms = None"
  by (subst load_symbols.simps) simp

subsection \<open>Steps of the statement loop\<close>

lemma parse_loop_Eof:
  "Tokenizer_tokenize inp pos = (Some Eof, pos1) \<Longrightarrow> parse_loop inp pos program = Some program"
  by (subst parse_loop.simps) simp

lemma parse_loop_Load:
  "Tokenizer_tokenize inp pos = (Some (Keyword Load), pos1) \<Longrightarrow>
   parse_load_stmt inp pos1 = Some (load, pos2) \<Longrightarrow>
     parse_loop inp pos program =
     parse_loop inp pos2 (program\<lparr>statements := statements program @ [Load_statement load]\<rparr>)"
  by (subst parse_loop.simps) simp

lemma parse_loop_other_keyword:
  "Tokenizer_tokenize inp pos = (Some (Keyword kw), pos1) \<Longrightarrow> kw \<noteq> Load \<Longrightarrow>
     parse_loop inp pos program = None"
  by (subst parse_loop.simps) simp

lemma parse_load_stmt_symbols:
  "parse_load_stmt inp pos = Some (stmt, pos') \<Longrightarrow> symbols stmt \<noteq> []"
  by (auto simp: parse_load_stmt_def split: prod.splits option.splits Token.splits if_splits)

lemma parse_loop_symbols:
  "parse_loop inp pos program = Some program' \<Longrightarrow>
   \<forall>l. Load_statement l \<in> set (statements program) \<longrightarrow> symbols l \<noteq> [] \<Longrightarrow>
   Load_statement l \<in> set (statements program') \<Longrightarrow> symbols l \<noteq> []"
proof (induction inp pos program rule: parse_loop.induct)
  case (1 inp pos program)
  obtain r pos1 where t: "Tokenizer_tokenize inp pos = (r, pos1)"
    by (cases "Tokenizer_tokenize inp pos")
  from "1.prems"(1) t obtain token where r: "r = Some token"
    by (subst (asm) parse_loop.simps) (auto split: option.splits)
  show ?case
  proof (cases "token = Eof")
    case True
    with t r "1.prems"(1) have "program' = program" by (simp add: parse_loop_Eof)
    with "1.prems" show ?thesis by simp
  next
    case False
    with "1.prems"(1) t r have kw: "token = Keyword Load"
      by (subst (asm) parse_loop.simps) (auto split: Token.splits if_splits)
    with "1.prems"(1) t r obtain load pos2 where
      ld: "parse_load_stmt inp pos1 = Some (load, pos2)"
      by (subst (asm) parse_loop.simps) (auto split: option.splits)
    let ?program = "program\<lparr>statements := statements program @ [Load_statement load]\<rparr>"
    from "1.prems"(1) have next_call: "parse_loop inp pos2 ?program = Some program'"
      using parse_loop_Load[OF t[unfolded r kw] ld] by simp
    from ld have "symbols load \<noteq> []" by (rule parse_load_stmt_symbols)
    with "1.prems"(2)
    have inv: "\<forall>l. Load_statement l \<in> set (statements ?program) \<longrightarrow> symbols l \<noteq> []"
      by auto
    show ?thesis
      by (rule "1.IH"[OF t[symmetric] r False kw refl ld refl next_call inv "1.prems"(3)])
  qed
qed

text \<open>
  The cursor positions at which \<^verbatim>\<open>Parser::parse\<close> asks for the first token of a statement:
  the start of the input, and the cursor after each \<^verbatim>\<open>load\<close> statement parsed from such a
  position.
\<close>

inductive statement_start :: "string \<Rightarrow> nat \<Rightarrow> bool" for inp :: string where
  start: "statement_start inp 0"
| after_load:
    "statement_start inp pos \<Longrightarrow>
     Tokenizer_tokenize inp pos = (Some (Keyword Load), pos1) \<Longrightarrow>
     parse_load_stmt inp pos1 = Some (load, pos2) \<Longrightarrow>
     statement_start inp pos2"

code_pred statement_start .

lemma statement_start_parse:
  "statement_start inp pos \<Longrightarrow> \<exists>program. parse inp = parse_loop inp pos program"
proof (induction rule: statement_start.induct)
  case start
  show ?case unfolding parse_def by blast
next
  case (after_load pos pos1 load pos2)
  then obtain program where "parse inp = parse_loop inp pos program" by blast
  with parse_loop_Load[OF after_load(2,3)] show ?case by metis
qed

subsection \<open>Where tokens come from\<close>

lemma keyword_or_identifier_cases:
  "(\<exists>kw. keyword_or_identifier name = Keyword kw) \<or> keyword_or_identifier name = Identifier name"
  by (simp add: keyword_or_identifier_def)

lemma Tokenizer_tokenize_Punctuator:
  assumes "Tokenizer_tokenize inp pos0 = (Some (Punctuator p), pos')"
  shows "p \<in> snd ` set punctuators"
proof -
  define pos where "pos = skip_comments_and_whitespace inp pos0"
  have a: "fst (tokenize_multiline_string inp pos) \<noteq> Some (Punctuator p)"
    by (simp add: tokenize_multiline_string_def Let_def)
  have b: "fst (tokenize_string inp pos) \<noteq> Some (Punctuator p)"
    by (simp add: tokenize_string_def Let_def)
  have c: "fst (tokenize_identifier inp pos) \<noteq> Some (Punctuator p)"
    using keyword_or_identifier_cases[of "substr inp pos
      (scan_while (\<lambda>c. is_alpha c \<or> is_digit c) inp pos - pos)"]
    by (auto simp: tokenize_identifier_def Let_def)
  from assms a b c have "tokenize_punctuator inp pos = (Some (Punctuator p), pos')"
    unfolding Tokenizer_tokenize_def pos_def[symmetric] Let_def
    by (auto split: if_splits)
  then have "match_punctuator kPunctuators inp pos = (Some (Punctuator p), pos')"
    by (simp add: tokenize_punctuator_def)
  from match_punctuator_Some[OF this] show ?thesis
    by (force simp: set_kPunctuators)
qed

lemma tokenize_loop_tokens:
  "tokenize_loop inp pos acc = Some ts \<Longrightarrow> t \<in> set ts \<Longrightarrow>
     t \<in> set acc \<or> (\<exists>p p'. Tokenizer_tokenize inp p = (Some t, p'))"
proof (induction inp pos acc rule: tokenize_loop.induct)
  case (1 inp pos acc)
  obtain r pos' where tk: "Tokenizer_tokenize inp pos = (r, pos')"
    by (cases "Tokenizer_tokenize inp pos")
  from "1.prems"(1) tk obtain token where r: "r = Some token"
    by (subst (asm) tokenize_loop.simps) (auto split: option.splits)
  show ?case
  proof (cases "token = Eof")
    case True
    with "1.prems" tk r show ?thesis
      by (subst (asm) tokenize_loop.simps) simp
  next
    case False
    with "1.prems"(1) tk r have "tokenize_loop inp pos' (acc @ [token]) = Some ts"
      by (subst (asm) tokenize_loop.simps) simp
    from "1.IH"[OF tk[symmetric] r False this "1.prems"(2)] tk r show ?thesis
      by auto
  qed
qed

lemma tokenize_loop_length:
  "tokenize_loop inp pos acc = Some ts \<Longrightarrow> length ts \<le> length acc + (length inp - pos)"
proof (induction inp pos acc rule: tokenize_loop.induct)
  case (1 inp pos acc)
  obtain r pos' where tk: "Tokenizer_tokenize inp pos = (r, pos')"
    by (cases "Tokenizer_tokenize inp pos")
  from "1.prems"(1) tk obtain token where r: "r = Some token"
    by (subst (asm) tokenize_loop.simps) (auto split: option.splits)
  show ?case
  proof (cases "token = Eof")
    case True
    with "1.prems" tk r show ?thesis
      by (subst (asm) tokenize_loop.simps) simp
  next
    case False
    with "1.prems"(1) tk r have "tokenize_loop inp pos' (acc @ [token]) = Some ts"
      by (subst (asm) tokenize_loop.simps) simp
    from "1.IH"[OF tk[symmetric] r False this]
    have "length ts \<le> length acc + 1 + (length inp - pos')" by simp
    moreover from Tokenizer_tokenize_progress[OF tk[unfolded r] False]
    have "pos < pos' \<and> pos' \<le> length inp" .
    ultimately show ?thesis by linarith
  qed
qed

subsection \<open>Termination of the three loops\<close>

lemma tokenize_loop_total: "tokenize_loop_dom (inp, pos, tokens)"
proof -
  have "All tokenize_loop_dom"
    apply (relation "measure (\<lambda>(inp, pos, tokens). length inp - pos)")
     apply simp
    apply (simp, drule sym, drule Tokenizer_tokenize_progress, simp, linarith)
    done
  then show ?thesis by simp
qed

lemma load_symbols_total: "load_symbols_dom (inp, pos, syms)"
proof -
  have "All load_symbols_dom"
    apply (relation "measure (\<lambda>(inp, pos, syms). length inp - pos)")
      apply simp_all
     apply (erule (3) load_symbols_decreases_identifier)
    apply (erule (1) load_symbols_decreases_string)
    done
  then show ?thesis by simp
qed

lemma parse_loop_total: "parse_loop_dom (inp, pos, program)"
proof -
  have "All parse_loop_dom"
    apply (relation "measure (\<lambda>(inp, pos, program). length inp - pos)")
     apply simp_all
    apply (erule (2) parse_loop_decreases)
    done
  then show ?thesis by simp
qed

lemma parse_loop_length:
  "parse_loop inp pos program = Some program' \<Longrightarrow>
     length (statements program') \<le> length (statements program) + (length inp - pos)"
proof (induction inp pos program rule: parse_loop.induct)
  case (1 inp pos program)
  obtain r pos1 where t: "Tokenizer_tokenize inp pos = (r, pos1)"
    by (cases "Tokenizer_tokenize inp pos")
  from "1.prems"(1) t obtain token where r: "r = Some token"
    by (subst (asm) parse_loop.simps) (auto split: option.splits)
  show ?case
  proof (cases "token = Eof")
    case True
    with t r "1.prems"(1) have "program' = program" by (simp add: parse_loop_Eof)
    then show ?thesis by simp
  next
    case False
    with "1.prems"(1) t r have kw: "token = Keyword Load"
      by (subst (asm) parse_loop.simps) (auto split: Token.splits if_splits)
    with "1.prems"(1) t r obtain load pos2 where
      ld: "parse_load_stmt inp pos1 = Some (load, pos2)"
      by (subst (asm) parse_loop.simps) (auto split: option.splits)
    let ?program = "program\<lparr>statements := statements program @ [Load_statement load]\<rparr>"
    from "1.prems"(1) have next_call: "parse_loop inp pos2 ?program = Some program'"
      using parse_loop_Load[OF t[unfolded r kw] ld] by simp
    from "1.IH"[OF t[symmetric] r False kw refl ld refl next_call]
    have "length (statements program') \<le> length (statements program) + 1 + (length inp - pos2)"
      by simp
    moreover from Tokenizer_tokenize_progress[OF t[unfolded r] False]
    have "pos < pos1 \<and> pos1 \<le> length inp" .
    moreover from ld have "pos1 \<le> pos2" by (rule parse_load_stmt_mono)
    ultimately show ?thesis by linarith
  qed
qed

subsection \<open>Skipping, at a given character\<close>

lemma skip_comments_and_whitespace_whitespace:
  "pos < length inp \<Longrightarrow> is_whitespace (inp ! pos) \<Longrightarrow>
     skip_comments_and_whitespace inp pos = skip_comments_and_whitespace inp (Suc pos)"
  by (subst skip_comments_and_whitespace.simps,
      subst (2) skip_comments_and_whitespace.simps) (simp add: scan_while_True)

lemma skip_comments_and_whitespace_comment:
  "pos < length inp \<Longrightarrow> inp ! pos = CHR ''#'' \<Longrightarrow>
     skip_comments_and_whitespace inp pos =
     skip_comments_and_whitespace inp (scan_while (\<lambda>c. c \<noteq> CHR 0x0A) inp pos)"
  by (subst skip_comments_and_whitespace.simps)
    (simp add: scan_while_False is_whitespace_def)

lemma skip_comments_and_whitespace_other:
  "pos < length inp \<Longrightarrow> \<not> is_whitespace (inp ! pos) \<Longrightarrow> inp ! pos \<noteq> CHR ''#'' \<Longrightarrow>
     skip_comments_and_whitespace inp pos = pos"
  by (subst skip_comments_and_whitespace.simps) (simp add: scan_while_False)

lemma skip_comments_and_whitespace_past:
  "length inp \<le> pos \<Longrightarrow> skip_comments_and_whitespace inp pos = pos"
  by (subst skip_comments_and_whitespace.simps) (simp add: scan_while_past)

lemma Tokenizer_tokenize_past:
  "length inp \<le> pos \<Longrightarrow> Tokenizer_tokenize inp pos = (Some Eof, pos)"
  by (simp add: Tokenizer_tokenize_def skip_comments_and_whitespace_past)

lemma tokenize_single:
  assumes "Tokenizer_tokenize inp 0 = (Some t, length inp)" "t \<noteq> Eof"
  shows "tokenize inp = Some [t]"
proof -
  have "tokenize inp = tokenize_loop inp (length inp) [t]"
    unfolding tokenize_def using assms by (subst tokenize_loop.simps) simp
  also have "\<dots> = Some [t]"
    by (subst tokenize_loop.simps) (simp add: Tokenizer_tokenize_past)
  finally show ?thesis .
qed

text \<open>
  Text made of whitespace and line comments only: every character is whitespace, or is a
  \<^verbatim>\<open>#\<close>, whose comment runs up to the next newline or to the end of the text.
\<close>

function only_whitespace_and_comments :: "string \<Rightarrow> bool" where
  "only_whitespace_and_comments [] = True"
| "only_whitespace_and_comments (c # s) =
     (if is_whitespace c then only_whitespace_and_comments s
      else if c = CHR ''#'' then only_whitespace_and_comments (dropWhile (\<lambda>c. c \<noteq> CHR 0x0A) s)
      else False)"
  by pat_completeness auto
termination
  by (relation "measure length") (auto simp: length_dropWhile_le le_imp_less_Suc)

lemma skip_only_whitespace_and_comments:
  "only_whitespace_and_comments s \<Longrightarrow>
     skip_comments_and_whitespace (pre @ s) (length pre) = length pre + length s"
proof (induction s arbitrary: pre rule: only_whitespace_and_comments.induct)
  case 1
  show ?case by (simp add: skip_comments_and_whitespace_past)
next
  case (2 c s)
  let ?inp = "pre @ c # s"
  have at: "length pre < length ?inp" "?inp ! length pre = c" by simp_all
  show ?case
  proof (cases "is_whitespace c")
    case True
    with "2.prems" have "only_whitespace_and_comments s" by simp
    from "2.IH"(1)[OF True this, of "pre @ [c]"]
    have "skip_comments_and_whitespace ?inp (Suc (length pre)) = length pre + length (c # s)"
      by simp
    with skip_comments_and_whitespace_whitespace[of "length pre" ?inp] at True
    show ?thesis by simp
  next
    case False
    with "2.prems" have c: "c = CHR ''#''" by (simp split: if_splits)
    let ?body = "takeWhile (\<lambda>c. c \<noteq> CHR 0x0A) s"
    let ?rest = "dropWhile (\<lambda>c. c \<noteq> CHR 0x0A) s"
    from "2.prems" False c have "only_whitespace_and_comments ?rest" by simp
    then have "skip_comments_and_whitespace ((pre @ c # ?body) @ ?rest) (length (pre @ c # ?body))
        = length (pre @ c # ?body) + length ?rest"
      by (rule "2.IH"(2)[OF False c])
    moreover have "(pre @ c # ?body) @ ?rest = ?inp" by simp
    moreover have "length ?body + length ?rest = length s"
      by (metis length_append takeWhile_dropWhile_id)
    ultimately have ih: "skip_comments_and_whitespace ?inp (length pre + 1 + length ?body) =
        length pre + length (c # s)"
      by (simp del: append_assoc append.simps takeWhile_dropWhile_id)
    have "scan_while (\<lambda>c. c \<noteq> CHR 0x0A) ?inp (length pre) =
        length pre + length (takeWhile (\<lambda>c. c \<noteq> CHR 0x0A) (drop (length pre) ?inp))"
      by (rule scan_while_takeWhile) simp
    also have "\<dots> = length pre + 1 + length ?body" using c by simp
    finally have "skip_comments_and_whitespace ?inp (length pre) =
        skip_comments_and_whitespace ?inp (length pre + 1 + length ?body)"
      using skip_comments_and_whitespace_comment[of "length pre" ?inp] at c by simp
    with ih show ?thesis by simp
  qed
qed

subsection \<open>Identifiers and keywords\<close>

lemma is_alpha_not_special:
  "is_alpha c \<Longrightarrow> \<not> is_whitespace c \<and> c \<noteq> CHR ''#'' \<and> c \<noteq> dquote"
  by (auto simp: is_alpha_def is_whitespace_def dquote_def)

lemma keyword_or_identifier_keyword:
  "keyword_or_identifier (Keyword_to_string kw) = Keyword kw"
  by (cases kw) (simp_all add: keyword_or_identifier_def)

lemma keyword_or_identifier_other:
  assumes "\<And>kw. s \<noteq> Keyword_to_string kw"
  shows "keyword_or_identifier s = Identifier s"
  using assms[of And] assms[of Else] assms[of Load] assms[of Break] assms[of For]
    assms[of Not_kw] assms[of Continue] assms[of If_kw] assms[of Or] assms[of Def]
    assms[of In] assms[of Pass] assms[of Elif] assms[of Lambda] assms[of Return]
  by (simp add: keyword_or_identifier_def)

lemma Tokenizer_tokenize_identifier_run:
  assumes "s \<noteq> []" "is_alpha (hd s)" "\<forall>c \<in> set (tl s). is_alpha c \<or> is_digit c"
  shows "Tokenizer_tokenize s 0 = (Some (keyword_or_identifier s), length s)"
proof -
  from assms(1) have len: "0 < length s" and s0: "s ! 0 = hd s"
    by (simp_all add: hd_conv_nth)
  from assms(2) have sp: "\<not> is_whitespace (hd s)" "hd s \<noteq> CHR ''#''" "hd s \<noteq> dquote"
    using is_alpha_not_special by blast+
  from len s0 sp have skip: "skip_comments_and_whitespace s 0 = 0"
    by (intro skip_comments_and_whitespace_other) simp_all
  from assms(1) sp(3) have nt: "substr s 0 3 \<noteq> triple_quote"
    by (cases s) (auto simp: substr_def triple_quote_def)
  from assms have "\<forall>c \<in> set s. is_alpha c \<or> is_digit c"
    by (cases s) auto
  then have "takeWhile (\<lambda>c. is_alpha c \<or> is_digit c) s = s"
    by (simp add: takeWhile_eq_all_conv)
  with scan_while_takeWhile[of 0 s "\<lambda>c. is_alpha c \<or> is_digit c"]
  have sc: "scan_while (\<lambda>c. is_alpha c \<or> is_digit c) s 0 = length s" by simp
  have "tokenize_identifier s 0 = (Some (keyword_or_identifier s), length s)"
    by (simp add: tokenize_identifier_def sc substr_def)
  with skip nt len s0 sp(3) assms(2) show ?thesis
    by (simp add: Tokenizer_tokenize_def)
qed

subsection \<open>String literals\<close>

lemma length_triple_quote [simp]: "length triple_quote = 3"
  by (simp add: triple_quote_def)

lemma triple_quote_not_Nil [simp]: "triple_quote \<noteq> []"
  by (simp add: triple_quote_def)

lemma scan_triple_True:
  "pos + 2 < length inp \<Longrightarrow> substr inp pos 3 \<noteq> triple_quote \<Longrightarrow>
     scan_triple inp pos = scan_triple inp (Suc pos)"
  by (subst scan_triple.simps) simp

lemma scan_triple_False:
  "\<not> (pos + 2 < length inp \<and> substr inp pos 3 \<noteq> triple_quote) \<Longrightarrow> scan_triple inp pos = pos"
  by (subst scan_triple.simps) auto

lemma scan_triple_stop:
  "scan_triple inp pos + 2 < length inp \<Longrightarrow>
     substr inp (scan_triple inp pos) 3 = triple_quote"
proof (induction inp pos rule: scan_triple.induct)
  case (1 inp pos)
  show ?case
  proof (cases "pos + 2 < length inp \<and> substr inp pos 3 \<noteq> triple_quote")
    case True
    then have "scan_triple inp pos = scan_triple inp (pos + 1)"
      by (simp add: scan_triple_True)
    with 1 True show ?thesis by simp
  next
    case False
    then have "scan_triple inp pos = pos" by (rule scan_triple_False)
    with 1 False show ?thesis by auto
  qed
qed

lemma scan_triple_find:
  assumes "\<forall>j. i \<le> j \<and> j < n \<longrightarrow> substr inp j 3 \<noteq> triple_quote"
    and "substr inp n 3 = triple_quote" and "i \<le> n"
  shows "scan_triple inp i = n"
  using assms(1,3)
proof (induction "n - i" arbitrary: i)
  case 0
  then have "i = n" by simp
  with assms(2) show ?case by (simp add: scan_triple_False)
next
  case (Suc d)
  then have lt: "i < n" by simp
  from assms(2) have "n + 3 \<le> length inp"
    by (rule substr_eq_length) (simp_all add: triple_quote_def)
  with lt have "i + 2 < length inp" by simp
  moreover from Suc.prems lt have "substr inp i 3 \<noteq> triple_quote" by simp
  ultimately have "scan_triple inp i = scan_triple inp (Suc i)" by (rule scan_triple_True)
  also have "\<dots> = n"
  proof (rule Suc.hyps(1))
    from Suc.hyps(2) show "d = n - Suc i" by simp
    from Suc.prems show "\<forall>j. Suc i \<le> j \<and> j < n \<longrightarrow> substr inp j 3 \<noteq> triple_quote" by simp
    from lt show "Suc i \<le> n" by simp
  qed
  finally show ?case .
qed

lemma substr_append_left: "substr (pre @ xs) (length pre + i) n = substr xs i n"
  by (simp add: substr_def)

lemma no_dquote_no_triple: "dquote \<notin> set s \<Longrightarrow> substr s i 3 \<noteq> triple_quote"
proof
  assume a: "dquote \<notin> set s" and b: "substr s i 3 = triple_quote"
  have "set (substr s i 3) \<subseteq> set s"
    unfolding substr_def by (meson order_trans set_take_subset set_drop_subset)
  with a b show False by (simp add: triple_quote_def)
qed

lemma skip_at_dquote:
  "skip_comments_and_whitespace (pre @ dquote # xs) (length pre) = length pre"
  by (rule skip_comments_and_whitespace_other) (simp_all add: is_whitespace_def dquote_def)

lemma Tokenizer_tokenize_None: "Tokenizer_tokenize inp 0 = (None, p) \<Longrightarrow> tokenize inp = None"
  unfolding tokenize_def by (subst tokenize_loop.simps) simp

lemma unterminated_string:
  assumes "dquote \<notin> set s"
  shows "Tokenizer_tokenize (pre @ dquote # s) (length pre) = (None, length pre + 1 + length s)"
proof -
  let ?inp = "pre @ dquote # s"
  have nt: "substr ?inp (length pre) 3 \<noteq> triple_quote"
    using assms by (cases s) (auto simp: substr_def triple_quote_def)
  from assms have "takeWhile (\<lambda>c. c \<noteq> dquote) s = s"
    by (simp add: takeWhile_eq_all_conv) metis
  with scan_while_takeWhile[of "length pre + 1" ?inp "\<lambda>c. c \<noteq> dquote"]
  have sc: "scan_while (\<lambda>c. c \<noteq> dquote) ?inp (length pre + 1) = length pre + 1 + length s"
    by simp
  have "tokenize_string ?inp (length pre) = (None, length pre + 1 + length s)"
    by (simp add: tokenize_string_def sc del: add_Suc_right One_nat_def)
  with nt show ?thesis
    by (simp add: Tokenizer_tokenize_def skip_at_dquote)
qed

lemma terminated_string:
  assumes "dquote \<notin> set s" "s = [] \<longrightarrow> take 1 rest \<noteq> [dquote]"
  shows "Tokenizer_tokenize (pre @ dquote # s @ dquote # rest) (length pre) =
    (Some (StringLiteral s), length pre + length s + 2)"
proof -
  let ?inp = "pre @ dquote # s @ dquote # rest"
  have nt: "substr ?inp (length pre) 3 \<noteq> triple_quote"
  proof (cases s)
    case Nil
    with assms(2) show ?thesis by (cases rest) (auto simp: substr_def triple_quote_def)
  next
    case (Cons c s')
    with assms(1) show ?thesis by (auto simp: substr_def triple_quote_def)
  qed
  from assms(1) have "takeWhile (\<lambda>c. c \<noteq> dquote) (s @ dquote # rest) = s"
    by (subst takeWhile_append2) auto
  with scan_while_takeWhile[of "length pre + 1" ?inp "\<lambda>c. c \<noteq> dquote"]
  have sc: "scan_while (\<lambda>c. c \<noteq> dquote) ?inp (length pre + 1) = length pre + 1 + length s"
    by simp
  have "substr ?inp (length pre + 1) (length s) = s"
    by (simp add: substr_def)
  then have "tokenize_string ?inp (length pre) =
      (Some (StringLiteral s), length pre + length s + 2)"
    by (simp add: tokenize_string_def sc del: add_Suc_right One_nat_def)
  with nt show ?thesis
    using skip_at_dquote[of pre "s @ dquote # rest"]
    by (simp add: Tokenizer_tokenize_def)
qed

lemma skip_at_triple_quote:
  "skip_comments_and_whitespace (pre @ triple_quote @ xs) (length pre) = length pre"
  using skip_at_dquote[of pre "dquote # dquote # xs"] by (simp add: triple_quote_def)

lemma unterminated_multiline_string:
  assumes "\<forall>i. substr s i 3 \<noteq> triple_quote"
  shows "fst (Tokenizer_tokenize (pre @ triple_quote @ s) (length pre)) = None"
proof -
  let ?inp = "pre @ triple_quote @ s"
  let ?start = "length pre + 3"
  define p where "p = scan_triple ?inp ?start"
  have t: "substr ?inp (length pre) 3 = triple_quote"
    by (simp add: substr_def triple_quote_def)
  have ge: "?start \<le> p" unfolding p_def by (rule scan_triple_ge)
  have "\<not> p + 2 < length ?inp"
  proof
    assume "p + 2 < length ?inp"
    then have "substr ?inp p 3 = triple_quote" unfolding p_def by (rule scan_triple_stop)
    moreover have "?inp = (pre @ triple_quote) @ s" by simp
    moreover from ge have "p = length (pre @ triple_quote) + (p - ?start)"
      by (simp add: triple_quote_def)
    ultimately have "substr s (p - ?start) 3 = triple_quote"
      by (metis substr_append_left)
    with assms show False by simp
  qed
  then have "fst (tokenize_multiline_string ?inp (length pre)) = None"
    by (simp add: tokenize_multiline_string_def Let_def p_def)
  then show ?thesis
    using t skip_at_triple_quote[of pre s] by (simp add: Tokenizer_tokenize_def Let_def)
qed

lemma terminated_multiline_string:
  assumes "\<forall>i<length s. substr (s @ triple_quote) i 3 \<noteq> triple_quote"
  shows "Tokenizer_tokenize (pre @ triple_quote @ s @ triple_quote @ rest) (length pre) =
    (Some (StringLiteral s), length pre + length s + 6)"
proof -
  let ?inp = "pre @ triple_quote @ s @ triple_quote @ rest"
  let ?start = "length pre + 3"
  have inp: "?inp = (pre @ triple_quote) @ s @ triple_quote @ rest" by simp
  have lp: "length (pre @ triple_quote) = ?start" by (simp add: triple_quote_def)
  have t: "substr ?inp (length pre) 3 = triple_quote"
    by (simp add: substr_def triple_quote_def)
  have before: "substr ?inp j 3 \<noteq> triple_quote" if "?start \<le> j" "j < ?start + length s" for j
  proof -
    from that have k: "j - ?start < length s" and j: "j = length (pre @ triple_quote) + (j - ?start)"
      by simp_all
    have "substr ?inp j 3 = substr (s @ triple_quote @ rest) (j - ?start) 3"
      by (subst j, subst inp) (rule substr_append_left)
    also from k have "\<dots> = substr (s @ triple_quote) (j - ?start) 3"
      by (simp add: substr_def)
    finally show ?thesis using assms k by simp
  qed
  have at_end: "substr ?inp (?start + length s) 3 = triple_quote"
  proof -
    have "?inp = (pre @ triple_quote @ s) @ triple_quote @ rest" by simp
    moreover have "?start + length s = length (pre @ triple_quote @ s) + 0"
      by (simp add: triple_quote_def)
    ultimately have "substr ?inp (?start + length s) 3 = substr (triple_quote @ rest) 0 3"
      by (metis substr_append_left)
    then show ?thesis by (simp add: substr_def triple_quote_def)
  qed
  have sc: "scan_triple ?inp ?start = ?start + length s"
    by (rule scan_triple_find) (use before at_end in auto)
  have "substr ((pre @ triple_quote) @ s @ triple_quote @ rest)
      (length (pre @ triple_quote) + 0) (length s) = substr (s @ triple_quote @ rest) 0 (length s)"
    by (rule substr_append_left)
  then have v: "substr ?inp ?start (length s) = s"
    by (simp add: substr_def)
  have len: "length ?inp = length pre + length s + 6 + length rest"
    by (simp add: triple_quote_def)
  have "tokenize_multiline_string ?inp (length pre) =
      (Some (StringLiteral s), length pre + length s + 6)"
    unfolding tokenize_multiline_string_def Let_def sc len using v by simp
  then show ?thesis
    using t skip_at_triple_quote[of pre "s @ triple_quote @ rest"]
    by (simp add: Tokenizer_tokenize_def Let_def)
qed

subsection \<open>Single tokens inside an input\<close>

lemma kPunctuators_eq:
  "kPunctuators =
    [(''>>='', RShiftEquals), (''<<='', LShiftEquals), (''>='', GreaterOrEqual),
     (''<='', LessOrEqual), (''^='', CaretEquals), (''|='', PipeEquals),
     (''&='', AmpersandEquals), (''%='', PercentEquals), (''/='', SlashEquals),
     (''*='', StarEquals), (''-='', MinusEquals), (''+='', PlusEquals), (''!='', NotEqual),
     (''=='', EqualEqual), (''>>'', RShift), (''<<'', LShift), (''**'', DoubleStar),
     (''//'', DoubleSlash), (''~'', Tilde), (''>'', Greater), (''<'', Less), (''}'', RBrace),
     (''{'', LBrace), ('']'', RBracket), (''['', LBracket), ('')'', RParen), (''('', LParen),
     ('':'', Colon), ('';'', Semicolon), (''='', Equals), ('','', Comma), (''.'', Dot),
     (''^'', Caret), (''|'', Pipe), (''&'', Ampersand), (''%'', Percent), (''/'', Slash),
     (''*'', Star), (''-'', Minus), (''+'', Plus)]"
  by code_simp

lemma Tokenizer_tokenize_whitespace:
  "pos < length inp \<Longrightarrow> is_whitespace (inp ! pos) \<Longrightarrow>
     Tokenizer_tokenize inp pos = Tokenizer_tokenize inp (Suc pos)"
  by (simp add: Tokenizer_tokenize_def skip_comments_and_whitespace_whitespace)

lemma Tokenizer_tokenize_punctuator_at:
  assumes "\<not> is_whitespace c" "c \<noteq> CHR ''#''" "c \<noteq> dquote" "\<not> is_alpha c"
  shows "Tokenizer_tokenize (pre @ c # rest) (length pre) =
    tokenize_punctuator (pre @ c # rest) (length pre)"
proof -
  have "skip_comments_and_whitespace (pre @ c # rest) (length pre) = length pre"
    using assms by (intro skip_comments_and_whitespace_other) simp_all
  moreover have "substr (pre @ c # rest) (length pre) 3 \<noteq> triple_quote"
    using assms(3) by (auto simp: substr_def triple_quote_def)
  ultimately show ?thesis using assms by (simp add: Tokenizer_tokenize_def)
qed

lemma Tokenizer_tokenize_LParen:
  "Tokenizer_tokenize (pre @ CHR ''('' # rest) (length pre) =
     (Some (Punctuator LParen), length pre + 1)"
  by (subst Tokenizer_tokenize_punctuator_at)
    (simp_all add: is_whitespace_def is_alpha_def dquote_def tokenize_punctuator_def
      kPunctuators_eq substr_def)

lemma Tokenizer_tokenize_RParen:
  "Tokenizer_tokenize (pre @ CHR '')'' # rest) (length pre) =
     (Some (Punctuator RParen), length pre + 1)"
  by (subst Tokenizer_tokenize_punctuator_at)
    (simp_all add: is_whitespace_def is_alpha_def dquote_def tokenize_punctuator_def
      kPunctuators_eq substr_def)

lemma Tokenizer_tokenize_Comma:
  "Tokenizer_tokenize (pre @ CHR '','' # rest) (length pre) =
     (Some (Punctuator Comma), length pre + 1)"
  by (subst Tokenizer_tokenize_punctuator_at)
    (simp_all add: is_whitespace_def is_alpha_def dquote_def tokenize_punctuator_def
      kPunctuators_eq substr_def)

lemma Tokenizer_tokenize_Equals:
  "Tokenizer_tokenize (pre @ CHR ''='' # CHR '' '' # rest) (length pre) =
     (Some (Punctuator Equals), length pre + 1)"
  by (subst Tokenizer_tokenize_punctuator_at)
    (simp_all add: is_whitespace_def is_alpha_def dquote_def tokenize_punctuator_def
      kPunctuators_eq substr_def)

lemma Tokenizer_tokenize_identifier_at:
  assumes "n \<noteq> []" "is_alpha (hd n)" "\<forall>c \<in> set n. is_alpha c \<or> is_digit c"
    and "rest = [] \<or> \<not> (is_alpha (hd rest) \<or> is_digit (hd rest))"
  shows "Tokenizer_tokenize (pre @ n @ rest) (length pre) =
    (Some (keyword_or_identifier n), length pre + length n)"
proof -
  let ?inp = "pre @ n @ rest"
  from assms(1) have at: "length pre < length ?inp" "?inp ! length pre = hd n"
    by (simp_all add: nth_append hd_conv_nth)
  from assms(2) have sp: "\<not> is_whitespace (hd n)" "hd n \<noteq> CHR ''#''" "hd n \<noteq> dquote"
    using is_alpha_not_special by blast+
  from at sp have skip: "skip_comments_and_whitespace ?inp (length pre) = length pre"
    by (intro skip_comments_and_whitespace_other) simp_all
  from assms(1) sp(3) have nt: "substr ?inp (length pre) 3 \<noteq> triple_quote"
    by (cases n) (auto simp: substr_def triple_quote_def)
  from assms(4) have "takeWhile (\<lambda>c. is_alpha c \<or> is_digit c) rest = []"
    by (cases rest) auto
  with assms(3) have "takeWhile (\<lambda>c. is_alpha c \<or> is_digit c) (n @ rest) = n"
    by (simp add: takeWhile_append2)
  with scan_while_takeWhile[of "length pre" ?inp "\<lambda>c. is_alpha c \<or> is_digit c"]
  have sc: "scan_while (\<lambda>c. is_alpha c \<or> is_digit c) ?inp (length pre) = length pre + length n"
    by simp
  have "tokenize_identifier ?inp (length pre) =
      (Some (keyword_or_identifier n), length pre + length n)"
    by (simp add: tokenize_identifier_def sc substr_def)
  with skip nt at sp(3) assms(1,2) show ?thesis
    by (simp add: Tokenizer_tokenize_def Let_def)
qed

subsection \<open>Load statements as text\<close>

text \<open>
  The two ways to spell a symbol in a \<^verbatim>\<open>load\<close> statement, the text of each, and the text
  \<^verbatim>\<open>load("m", s1, ..., sn)\<close> of a statement written the way the tests write it. A
  \<open>Plain\<close> symbol is a string literal alone; a \<open>Renamed\<close> one is
  \<^verbatim>\<open>identifier = "string"\<close>.
\<close>

datatype symbol_text = Plain string | Renamed string string

fun symbol_render :: "symbol_text \<Rightarrow> string" where
  "symbol_render (Plain v) = dquote # v @ [dquote]"
| "symbol_render (Renamed n v) = n @ '' = '' @ dquote # v @ [dquote]"

definition symbols_render :: "symbol_text list \<Rightarrow> string" where
  "symbols_render ss = concat (map (\<lambda>s. '', '' @ symbol_render s) ss)"

definition load_text :: "string \<Rightarrow> symbol_text list \<Rightarrow> string" where
  "load_text m ss = ''load('' @ dquote # m @ dquote # symbols_render ss @ '')''"

text \<open>
  The string literals hold no quote; the local name of a renamed symbol is an identifier
  that is not a reserved word.
\<close>

definition reserved_words :: "Keyword list" where
  "reserved_words = [And, Else, Load, Break, For, Not_kw, Continue, If_kw, Or, Def, In, Pass, Elif,
     Lambda, Return]"

fun symbol_ok :: "symbol_text \<Rightarrow> bool" where
  "symbol_ok (Plain v) \<longleftrightarrow> dquote \<notin> set v"
| "symbol_ok (Renamed n v) \<longleftrightarrow>
     n \<noteq> [] \<and> is_alpha (hd n) \<and> list_all (\<lambda>c. is_alpha c \<or> is_digit c) n \<and>
     n \<notin> set (map Keyword_to_string reserved_words) \<and> dquote \<notin> set v"

text \<open>The pair the specification gives for each spelling.\<close>

fun symbol_pair :: "symbol_text \<Rightarrow> string \<times> string" where
  "symbol_pair (Plain v) = (v, v)"
| "symbol_pair (Renamed n v) = (n, v)"

lemma set_reserved_words: "kw \<in> set reserved_words"
  by (cases kw) (simp_all add: reserved_words_def)

lemma symbols_render_starts:
  "take 1 (symbols_render ss @ '')'') \<noteq> [dquote]"
  by (cases ss) (simp_all add: symbols_render_def dquote_def)

lemma load_symbols_symbol:
  assumes "symbol_ok s" and that: "take 1 rest \<noteq> [dquote]"
  shows "load_symbols (pre @ '', '' @ symbol_render s @ rest) (length pre) syms =
    load_symbols (pre @ '', '' @ symbol_render s @ rest)
      (length pre + 2 + length (symbol_render s)) (syms @ [symbol_pair s])"
proof (cases s)
  case (Plain v)
  let ?inp = "pre @ '', '' @ symbol_render s @ rest"
  have comma: "Tokenizer_tokenize ?inp (length pre) = (Some (Punctuator Comma), length pre + 1)"
    using Tokenizer_tokenize_Comma[of pre "CHR '' '' # symbol_render s @ rest"] by simp
  have "Tokenizer_tokenize ?inp (length pre + 1) = Tokenizer_tokenize ?inp (Suc (length pre + 1))"
    by (rule Tokenizer_tokenize_whitespace) (simp_all add: nth_append is_whitespace_def)
  also have "?inp = (pre @ '', '') @ dquote # v @ dquote # rest"
    using Plain by simp
  also have "Suc (length pre + 1) = length (pre @ '', '')" by simp
  also have "Tokenizer_tokenize ((pre @ '', '') @ dquote # v @ dquote # rest) (length (pre @ '', ''))
      = (Some (StringLiteral v), length (pre @ '', '') + length v + 2)"
    using assms(1) that Plain by (intro terminated_string) simp_all
  finally have str: "Tokenizer_tokenize ?inp (length pre + 1) =
      (Some (StringLiteral v), length pre + 2 + length (symbol_render s))"
    using Plain by simp
  from load_symbols_string[OF comma str] Plain show ?thesis by simp
next
  case (Renamed n v)
  let ?inp = "pre @ '', '' @ symbol_render s @ rest"
  from assms(1) Renamed have n: "n \<noteq> []" "is_alpha (hd n)" "\<forall>c \<in> set n. is_alpha c \<or> is_digit c"
    and nk: "\<And>kw. n \<noteq> Keyword_to_string kw" and v: "dquote \<notin> set v"
    using set_reserved_words by (auto simp: list_all_iff)
  have comma: "Tokenizer_tokenize ?inp (length pre) = (Some (Punctuator Comma), length pre + 1)"
    using Tokenizer_tokenize_Comma[of pre "CHR '' '' # symbol_render s @ rest"] by simp
  have "Tokenizer_tokenize ?inp (length pre + 1) = Tokenizer_tokenize ?inp (Suc (length pre + 1))"
    by (rule Tokenizer_tokenize_whitespace) (simp_all add: nth_append is_whitespace_def)
  also have "?inp = (pre @ '', '') @ n @ ('' = '' @ dquote # v @ dquote # rest)"
    using Renamed by simp
  also have "Suc (length pre + 1) = length (pre @ '', '')" by simp
  also have "Tokenizer_tokenize ((pre @ '', '') @ n @ ('' = '' @ dquote # v @ dquote # rest))
      (length (pre @ '', '')) = (Some (keyword_or_identifier n), length (pre @ '', '') + length n)"
    using n by (intro Tokenizer_tokenize_identifier_at) (simp_all add: is_alpha_def is_digit_def)
  finally have ident: "Tokenizer_tokenize ?inp (length pre + 1) =
      (Some (Identifier n), length pre + 2 + length n)"
    using keyword_or_identifier_other[OF nk] Renamed by simp
  have "Tokenizer_tokenize ?inp (length pre + 2 + length n) =
      Tokenizer_tokenize ?inp (Suc (length pre + 2 + length n))"
    using Renamed by (intro Tokenizer_tokenize_whitespace) (simp_all add: nth_append is_whitespace_def)
  also have "?inp = (pre @ '', '' @ n @ '' '') @ CHR ''='' # CHR '' '' # (dquote # v @ dquote # rest)"
    using Renamed by simp
  also have "Suc (length pre + 2 + length n) = length (pre @ '', '' @ n @ '' '')" by simp
  also note Tokenizer_tokenize_Equals
  finally have eq: "Tokenizer_tokenize ?inp (length pre + 2 + length n) =
      (Some (Punctuator Equals), length pre + length n + 4)"
    using Renamed by simp
  have "Tokenizer_tokenize ?inp (length pre + length n + 4) =
      Tokenizer_tokenize ?inp (Suc (length pre + length n + 4))"
    using Renamed by (intro Tokenizer_tokenize_whitespace) (simp_all add: nth_append is_whitespace_def)
  also have "?inp = (pre @ '', '' @ n @ '' = '') @ dquote # v @ dquote # rest"
    using Renamed by simp
  also have "Suc (length pre + length n + 4) = length (pre @ '', '' @ n @ '' = '')" by simp
  also have "Tokenizer_tokenize ((pre @ '', '' @ n @ '' = '') @ dquote # v @ dquote # rest)
      (length (pre @ '', '' @ n @ '' = '')) =
      (Some (StringLiteral v), length (pre @ '', '' @ n @ '' = '') + length v + 2)"
    using v that by (intro terminated_string) simp_all
  finally have str: "Tokenizer_tokenize ?inp (length pre + length n + 4) =
      (Some (StringLiteral v), length pre + 2 + length (symbol_render s))"
    using Renamed by simp
  from load_symbols_identifier[OF comma ident eq str] Renamed show ?thesis by simp
qed

lemma load_symbols_render:
  assumes "\<forall>s \<in> set ss. symbol_ok s"
  shows "load_symbols (pre @ symbols_render ss @ '')'') (length pre) syms =
    Some (syms @ map symbol_pair ss, length pre + length (symbols_render ss) + 1)"
  using assms
proof (induction ss arbitrary: pre syms)
  case Nil
  have "Tokenizer_tokenize (pre @ '')'') (length pre) = (Some (Punctuator RParen), length pre + 1)"
    using Tokenizer_tokenize_RParen[of pre "[]"] by simp
  then show ?case by (simp add: symbols_render_def load_symbols_RParen)
next
  case (Cons s ss)
  let ?rest = "symbols_render ss @ '')''"
  let ?pre = "pre @ '', '' @ symbol_render s"
  have inp: "pre @ symbols_render (s # ss) @ '')'' = pre @ '', '' @ symbol_render s @ ?rest"
    by (simp add: symbols_render_def)
  from Cons.prems have ok: "symbol_ok s" and oks: "\<forall>s \<in> set ss. symbol_ok s" by simp_all
  have "load_symbols (pre @ '', '' @ symbol_render s @ ?rest) (length pre) syms =
      load_symbols (pre @ '', '' @ symbol_render s @ ?rest)
        (length pre + 2 + length (symbol_render s)) (syms @ [symbol_pair s])"
    using ok symbols_render_starts by (rule load_symbols_symbol)
  also have "pre @ '', '' @ symbol_render s @ ?rest = ?pre @ ?rest" by simp
  also have "length pre + 2 + length (symbol_render s) = length ?pre" by simp
  also have "load_symbols (?pre @ ?rest) (length ?pre) (syms @ [symbol_pair s]) =
      Some ((syms @ [symbol_pair s]) @ map symbol_pair ss,
        length ?pre + length (symbols_render ss) + 1)"
    using oks by (rule Cons.IH)
  finally show ?case
    unfolding inp by (simp add: symbols_render_def)
qed

lemma parse_load_stmt_load_text:
  assumes "dquote \<notin> set m" "ss \<noteq> []" "\<forall>s \<in> set ss. symbol_ok s"
  shows "parse_load_stmt (load_text m ss) 4 =
    Some (\<lparr>module_name = m, symbols = map symbol_pair ss\<rparr>, length (load_text m ss))"
proof -
  let ?inp = "load_text m ss"
  let ?rest = "symbols_render ss @ '')''"
  have "?inp = ''load'' @ CHR ''('' # dquote # m @ dquote # ?rest"
    by (simp add: load_text_def)
  with Tokenizer_tokenize_LParen[of "''load''" "dquote # m @ dquote # ?rest"]
  have lparen: "Tokenizer_tokenize ?inp 4 = (Some (Punctuator LParen), 5)"
    by (simp add: eval_nat_numeral)
  have i2: "?inp = ''load('' @ dquote # m @ dquote # ?rest"
    by (simp add: load_text_def)
  have "Tokenizer_tokenize (''load('' @ dquote # m @ dquote # ?rest) (length ''load('') =
      (Some (StringLiteral m), length ''load('' + length m + 2)"
    using assms(1) symbols_render_starts by (intro terminated_string) simp_all
  then have mname: "Tokenizer_tokenize ?inp 5 = (Some (StringLiteral m), length m + 7)"
    unfolding i2 by (simp add: eval_nat_numeral)
  have i3: "?inp = (''load('' @ dquote # m @ [dquote]) @ ?rest"
    by (simp add: load_text_def)
  have "load_symbols ((''load('' @ dquote # m @ [dquote]) @ ?rest)
      (length (''load('' @ dquote # m @ [dquote])) [] =
      Some ([] @ map symbol_pair ss,
        length (''load('' @ dquote # m @ [dquote]) + length (symbols_render ss) + 1)"
    using assms(3) by (rule load_symbols_render)
  then have loop: "load_symbols ?inp (length m + 7) [] = Some (map symbol_pair ss, length ?inp)"
    unfolding i3 by (simp add: eval_nat_numeral)
  from lparen mname loop assms(2) show ?thesis
    by (simp add: parse_load_stmt_def)
qed

lemma parse_load_text:
  assumes "dquote \<notin> set m" "ss \<noteq> []" "\<forall>s \<in> set ss. symbol_ok s"
  shows "parse (load_text m ss) =
    Some \<lparr>statements = [Load_statement \<lparr>module_name = m, symbols = map symbol_pair ss\<rparr>]\<rparr>"
proof -
  let ?inp = "load_text m ss"
  have "Tokenizer_tokenize ([] @ ''load'' @ CHR ''('' # dquote # m @ dquote # symbols_render ss @ '')'')
      (length ([] :: string)) = (Some (keyword_or_identifier ''load''), length ([] :: string) + length ''load'')"
    by (rule Tokenizer_tokenize_identifier_at) (simp_all add: is_alpha_def is_digit_def)
  then have kw: "Tokenizer_tokenize ?inp 0 = (Some (Keyword Load), 4)"
    by (simp add: load_text_def keyword_or_identifier_def eval_nat_numeral)
  have "parse ?inp = parse_loop ?inp (length ?inp)
      \<lparr>statements = [Load_statement \<lparr>module_name = m, symbols = map symbol_pair ss\<rparr>]\<rparr>"
    unfolding parse_def
    using parse_loop_Load[OF kw parse_load_stmt_load_text[OF assms], of "\<lparr>statements = []\<rparr>"]
    by simp
  also have "\<dots> = Some \<lparr>statements = [Load_statement \<lparr>module_name = m, symbols = map symbol_pair ss\<rparr>]\<rparr>"
    by (rule parse_loop_Eof) (rule Tokenizer_tokenize_past, simp)
  finally show ?thesis .
qed

lemma load_symbols_extends:
  "load_symbols inp pos syms = Some (syms', pos') \<Longrightarrow> \<exists>rest. syms' = syms @ rest"
proof (induction inp pos syms rule: load_symbols.induct)
  case (1 inp pos syms)
  show ?case using "1.prems" "1.IH"
    by (subst (asm) load_symbols.simps)
      (fastforce split: prod.splits option.splits Token.splits if_splits bool.splits)
qed

lemma load_symbols_string_result:
  assumes "Tokenizer_tokenize inp pos = (Some (Punctuator Comma), pos1)"
    and "Tokenizer_tokenize inp pos1 = (Some (StringLiteral v), pos2)"
    and "load_symbols inp pos syms = Some (syms', pos')"
  shows "\<exists>rest. syms' = syms @ (v, v) # rest"
proof -
  from load_symbols_string[OF assms(1,2)] assms(3)
  have "load_symbols inp pos2 (syms @ [(v, v)]) = Some (syms', pos')" by simp
  from load_symbols_extends[OF this] show ?thesis by auto
qed

lemma parse_load_stmt_result:
  assumes "parse_load_stmt inp pos = Some (stmt, pos')"
  shows "\<exists>pos1 pos2 m. Tokenizer_tokenize inp pos = (Some (Punctuator LParen), pos1) \<and>
    Tokenizer_tokenize inp pos1 = (Some (StringLiteral m), pos2) \<and>
    load_symbols inp pos2 [] = Some (symbols stmt, pos') \<and> module_name stmt = m"
  using assms
  by (auto simp: parse_load_stmt_def split: prod.splits option.splits Token.splits if_splits)

subsection \<open>The punctuator table, entry by entry\<close>

lemma punctuators_alone: "list_all (\<lambda>(s, p). tokenize s = Some [Punctuator p]) punctuators"
  by code_simp

section \<open>The claims\<close>

text \<open>
  C1. The grammar comment above \<^verbatim>\<open>parse_load_stmt\<close> allows one trailing comma before the
  closing parenthesis. The code does not: after a comma it requires a string literal or an
  identifier, so \<^verbatim>\<open>load("m", "a",)\<close> is rejected, while the same statement without the
  comma parses to the statement the claim names.
\<close>

theorem trailing_comma_rejected:
  \<open>parse ''load("m", "a",)'' = None \<and>
   parse ''load("m", "a")'' =
     Some \<lparr>statements = [Load_statement \<lparr>module_name = ''m'', symbols = [(''a'', ''a'')]\<rparr>]\<rparr>\<close>
  by code_simp

text \<open>
  C2. Each of the 40 entries of the punctuator table, tokenized alone, gives exactly that
  punctuator; in particular \<^verbatim>\<open><<=\<close> is one \<^const>\<open>LShiftEquals\<close> token.
\<close>

theorem punctuator_alone_one_token:
  "length punctuators = 40 \<and>
   (\<forall>(s, p) \<in> set punctuators. tokenize s = Some [Punctuator p]) \<and>
   tokenize ''<<='' = Some [Punctuator LShiftEquals]"
proof (intro conjI)
  show "length punctuators = 40" by (simp add: punctuators_def)
  show "\<forall>(s, p) \<in> set punctuators. tokenize s = Some [Punctuator p]"
    using punctuators_alone by (simp add: list_all_iff)
  show "tokenize ''<<='' = Some [Punctuator LShiftEquals]" by code_simp
qed

theorem punctuator_alone_one_token_witness:
  "(''//'', DoubleSlash) \<in> set punctuators \<and> tokenize ''//'' = Some [Punctuator DoubleSlash]"
proof -
  have m: "(''//'', DoubleSlash) \<in> set punctuators" by (simp add: punctuators_def)
  with punctuator_alone_one_token show ?thesis by blast
qed

text \<open>
  C3. The two inputs of the parser's test parse to the expected programs. In general, for
  every module name and every non-empty list of symbols written as the tests write them
  (\<^const>\<open>load_text\<close>), however long, \<^verbatim>\<open>parse\<close> returns one \<^verbatim>\<open>LoadStmt\<close> with that module name
  and, in the same order, the pair \<open>(v, v)\<close> for each symbol spelled as a string \<open>v\<close> alone and
  \<open>(n, v)\<close> for each symbol spelled \<^verbatim>\<open>n = "v"\<close>. For any input at all: when the symbol loop
  reads a comma and then a string literal \<open>v\<close> and the loop succeeds, its result holds \<open>(v, v)\<close>
  right after the pairs collected so far; and the statement \<^verbatim>\<open>parse_load_stmt\<close> returns holds
  exactly the module name it read and the list the loop returned.
\<close>

theorem load_statement_examples:
  \<open>parse ''load("@rules_cc//cc:defs.bzl", "cc_library", "cc_test")'' =
     Some \<lparr>statements = [Load_statement
       \<lparr>module_name = ''@rules_cc//cc:defs.bzl'',
        symbols = [(''cc_library'', ''cc_library''), (''cc_test'', ''cc_test'')]\<rparr>]\<rparr> \<and>
   parse ''load("@rules_cc//cc:defs.bzl", foo = "cc_library")'' =
     Some \<lparr>statements = [Load_statement
       \<lparr>module_name = ''@rules_cc//cc:defs.bzl'', symbols = [(''foo'', ''cc_library'')]\<rparr>]\<rparr> \<and>
   (\<forall>m ss. dquote \<notin> set m \<longrightarrow> ss \<noteq> [] \<longrightarrow> (\<forall>s \<in> set ss. symbol_ok s) \<longrightarrow>
      parse (load_text m ss) =
        Some \<lparr>statements = [Load_statement
          \<lparr>module_name = m, symbols = map symbol_pair ss\<rparr>]\<rparr>) \<and>
   (\<forall>inp pos pos1 pos2 v syms syms' pos'.
      Tokenizer_tokenize inp pos = (Some (Punctuator Comma), pos1) \<longrightarrow>
      Tokenizer_tokenize inp pos1 = (Some (StringLiteral v), pos2) \<longrightarrow>
      load_symbols inp pos syms = Some (syms', pos') \<longrightarrow>
      (\<exists>rest. syms' = syms @ (v, v) # rest)) \<and>
   (\<forall>inp pos stmt pos'.
      parse_load_stmt inp pos = Some (stmt, pos') \<longrightarrow>
      (\<exists>pos1 pos2 m.
         Tokenizer_tokenize inp pos = (Some (Punctuator LParen), pos1) \<and>
         Tokenizer_tokenize inp pos1 = (Some (StringLiteral m), pos2) \<and>
         load_symbols inp pos2 [] = Some (symbols stmt, pos') \<and> module_name stmt = m))\<close>
proof (intro conjI allI impI)
  show \<open>parse ''load("@rules_cc//cc:defs.bzl", "cc_library", "cc_test")'' =
     Some \<lparr>statements = [Load_statement
       \<lparr>module_name = ''@rules_cc//cc:defs.bzl'',
        symbols = [(''cc_library'', ''cc_library''), (''cc_test'', ''cc_test'')]\<rparr>]\<rparr>\<close>
    by code_simp
  show \<open>parse ''load("@rules_cc//cc:defs.bzl", foo = "cc_library")'' =
     Some \<lparr>statements = [Load_statement
       \<lparr>module_name = ''@rules_cc//cc:defs.bzl'', symbols = [(''foo'', ''cc_library'')]\<rparr>]\<rparr>\<close>
    by code_simp
next
  fix m ss
  assume "dquote \<notin> set m" "ss \<noteq> []" "\<forall>s \<in> set ss. symbol_ok s"
  then show "parse (load_text m ss) =
      Some \<lparr>statements = [Load_statement \<lparr>module_name = m, symbols = map symbol_pair ss\<rparr>]\<rparr>"
    by (rule parse_load_text)
next
  fix inp pos pos1 pos2 v syms syms' pos'
  assume "Tokenizer_tokenize inp pos = (Some (Punctuator Comma), pos1)"
    and "Tokenizer_tokenize inp pos1 = (Some (StringLiteral v), pos2)"
    and "load_symbols inp pos syms = Some (syms', pos')"
  then show "\<exists>rest. syms' = syms @ (v, v) # rest"
    by (rule load_symbols_string_result)
next
  fix inp pos stmt pos'
  assume "parse_load_stmt inp pos = Some (stmt, pos')"
  then show "\<exists>pos1 pos2 m.
      Tokenizer_tokenize inp pos = (Some (Punctuator LParen), pos1) \<and>
      Tokenizer_tokenize inp pos1 = (Some (StringLiteral m), pos2) \<and>
      load_symbols inp pos2 [] = Some (symbols stmt, pos') \<and> module_name stmt = m"
    by (rule parse_load_stmt_result)
qed

theorem load_statement_examples_witness:
  \<open>load_text ''m'' [Plain ''a'', Renamed ''x'' ''b'', Plain ''c'', Plain ''''] =
     ''load("m", "a", x = "b", "c", "")'' \<and>
   parse ''load("m", "a", x = "b", "c", "")'' =
     Some \<lparr>statements = [Load_statement \<lparr>module_name = ''m'',
       symbols = [(''a'', ''a''), (''x'', ''b''), (''c'', ''c''), ('''', '''')]\<rparr>]\<rparr> \<and>
   Tokenizer_tokenize ''load("m", "a", x = "b", "c", "")'' 13 = (Some (Punctuator Comma), 14) \<and>
   Tokenizer_tokenize ''load("m", "a", x = "b", "c", "")'' 14 = (Some (Identifier ''x''), 16) \<and>
   Tokenizer_tokenize ''load("m", "a", x = "b", "c", "")'' 22 = (Some (Punctuator Comma), 23) \<and>
   Tokenizer_tokenize ''load("m", "a", x = "b", "c", "")'' 23 = (Some (StringLiteral ''c''), 27) \<and>
   load_symbols ''load("m", "a", x = "b", "c", "")'' 22 [(''a'', ''a''), (''x'', ''b'')] =
     Some ([(''a'', ''a''), (''x'', ''b''), (''c'', ''c''), ('''', '''')], 32) \<and>
   (\<exists>rest. [(''a'', ''a''), (''x'', ''b''), (''c'', ''c''), ('''', '''')] =
      [(''a'', ''a''), (''x'', ''b'')] @ (''c'', ''c'') # rest) \<and>
   parse_load_stmt ''load("m", "a", x = "b", "c", "")'' 4 =
     Some (\<lparr>module_name = ''m'',
       symbols = [(''a'', ''a''), (''x'', ''b''), (''c'', ''c''), ('''', '''')]\<rparr>, 32) \<and>
   load_symbols ''load("m", "a", x = "b", "c", "")'' 8 [] =
     Some ([(''a'', ''a''), (''x'', ''b''), (''c'', ''c''), ('''', '''')], 32)\<close>
proof -
  let ?inp = \<open>''load("m", "a", x = "b", "c", "")''\<close>
  let ?ss = "[Plain ''a'', Renamed ''x'' ''b'', Plain ''c'', Plain '''']"
  let ?syms = "[(''a'', ''a''), (''x'', ''b''), (''c'', ''c''), ('''', '''')]"
  have rendered: "load_text ''m'' ?ss = ?inp"
    by (simp add: load_text_def symbols_render_def dquote_def)
  have h: "dquote \<notin> set ''m''" "?ss \<noteq> []" "\<forall>s \<in> set ?ss. symbol_ok s"
    by (simp_all add: dquote_def reserved_words_def is_alpha_def)
  from load_statement_examples h
  have "parse (load_text ''m'' ?ss) =
      Some \<lparr>statements = [Load_statement \<lparr>module_name = ''m'', symbols = map symbol_pair ?ss\<rparr>]\<rparr>"
    by blast
  then have p: "parse ?inp = Some \<lparr>statements = [Load_statement
      \<lparr>module_name = ''m'', symbols = ?syms\<rparr>]\<rparr>"
    unfolding rendered by simp
  have t1: "Tokenizer_tokenize ?inp 13 = (Some (Punctuator Comma), 14)" by code_simp
  have t2: "Tokenizer_tokenize ?inp 14 = (Some (Identifier ''x''), 16)" by code_simp
  have t3: "Tokenizer_tokenize ?inp 22 = (Some (Punctuator Comma), 23)" by code_simp
  have t4: "Tokenizer_tokenize ?inp 23 = (Some (StringLiteral ''c''), 27)" by code_simp
  have l: "load_symbols ?inp 22 [(''a'', ''a''), (''x'', ''b'')] = Some (?syms, 32)"
    by code_simp
  from load_statement_examples t3 t4 l
  have r: "\<exists>rest. ?syms = [(''a'', ''a''), (''x'', ''b'')] @ (''c'', ''c'') # rest"
    by blast
  have s: "parse_load_stmt ?inp 4 = Some (\<lparr>module_name = ''m'', symbols = ?syms\<rparr>, 32)"
    by code_simp
  from load_statement_examples s
  obtain pos1 pos2 m where
    a: "Tokenizer_tokenize ?inp 4 = (Some (Punctuator LParen), pos1)"
      "Tokenizer_tokenize ?inp pos1 = (Some (StringLiteral m), pos2)"
      "load_symbols ?inp pos2 [] = Some (symbols \<lparr>module_name = ''m'', symbols = ?syms\<rparr>, 32)"
    by blast
  have "Tokenizer_tokenize ?inp 4 = (Some (Punctuator LParen), 5)" by code_simp
  with a(1) have "pos1 = 5" by simp
  moreover have "Tokenizer_tokenize ?inp 5 = (Some (StringLiteral ''m''), 8)" by code_simp
  ultimately have "pos2 = 8" using a(2) by simp
  with a(3) have ls: "load_symbols ?inp 8 [] = Some (?syms, 32)" by simp
  from rendered p t1 t2 t3 t4 l r s ls show ?thesis by blast
qed

text \<open>
  C4. Every \<^verbatim>\<open>LoadStmt\<close> of a program that \<^verbatim>\<open>parse\<close> returns has at least one symbol;
  \<^verbatim>\<open>load()\<close> and \<^verbatim>\<open>load("m")\<close> are rejected.
\<close>

theorem load_symbols_nonempty:
  \<open>(\<forall>inp program l.
      parse inp = Some program \<longrightarrow> Load_statement l \<in> set (statements program) \<longrightarrow>
      symbols l \<noteq> []) \<and>
   parse ''load()'' = None \<and>
   parse ''load("m")'' = None\<close>
proof (intro conjI allI impI)
  fix inp program l
  assume "parse inp = Some program" "Load_statement l \<in> set (statements program)"
  with parse_loop_symbols[of inp 0 "\<lparr>statements = []\<rparr>" program l]
  show "symbols l \<noteq> []"
    by (simp add: parse_def)
next
  show \<open>parse ''load()'' = None\<close> by code_simp
  show \<open>parse ''load("m")'' = None\<close> by code_simp
qed

theorem load_symbols_nonempty_witness:
  \<open>parse ''load("m", x = "a")'' =
     Some \<lparr>statements = [Load_statement \<lparr>module_name = ''m'', symbols = [(''x'', ''a'')]\<rparr>]\<rparr> \<and>
   symbols \<lparr>module_name = ''m'', symbols = [(''x'', ''a'')]\<rparr> \<noteq> []\<close>
proof -
  have p: \<open>parse ''load("m", x = "a")'' =
     Some \<lparr>statements = [Load_statement \<lparr>module_name = ''m'', symbols = [(''x'', ''a'')]\<rparr>]\<rparr>\<close>
    by code_simp
  have m: "Load_statement \<lparr>module_name = ''m'', symbols = [(''x'', ''a'')]\<rparr> \<in>
     set (statements \<lparr>statements = [Load_statement \<lparr>module_name = ''m'', symbols = [(''x'', ''a'')]\<rparr>]\<rparr>)"
    by simp
  from load_symbols_nonempty p m
  have "symbols \<lparr>module_name = ''m'', symbols = [(''x'', ''a'')]\<rparr> \<noteq> []" by blast
  with p show ?thesis by simp
qed

text \<open>
  C5. When the statement loop meets a keyword other than \<^verbatim>\<open>load\<close> where a statement starts,
  \<^verbatim>\<open>parse\<close> returns no program, whatever was parsed before: \<^verbatim>\<open>pass\<close> alone fails, and so
  does a valid \<^verbatim>\<open>load\<close> statement followed by \<^verbatim>\<open>pass\<close>.
\<close>

theorem unsupported_keyword_fails:
  \<open>(\<forall>inp pos kw pos1.
      statement_start inp pos \<longrightarrow> Tokenizer_tokenize inp pos = (Some (Keyword kw), pos1) \<longrightarrow>
      kw \<noteq> Load \<longrightarrow> parse inp = None) \<and>
   parse ''pass'' = None \<and>
   parse ''load("m", "a") pass'' = None\<close>
proof (intro conjI allI impI)
  fix inp pos kw pos1
  assume s: "statement_start inp pos"
    and t: "Tokenizer_tokenize inp pos = (Some (Keyword kw), pos1)" and k: "kw \<noteq> Load"
  from statement_start_parse[OF s] obtain program where
    "parse inp = parse_loop inp pos program" ..
  with parse_loop_other_keyword[OF t k] show "parse inp = None" by simp
next
  show \<open>parse ''pass'' = None\<close> by code_simp
  show \<open>parse ''load("m", "a") pass'' = None\<close> by code_simp
qed

theorem unsupported_keyword_fails_witness:
  \<open>statement_start ''load("m", "a") return'' 14 \<and>
   Tokenizer_tokenize ''load("m", "a") return'' 14 = (Some (Keyword Return), 21) \<and>
   Return \<noteq> Load \<and>
   parse ''load("m", "a") return'' = None\<close>
proof -
  let ?inp = \<open>''load("m", "a") return''\<close>
  have a: "Tokenizer_tokenize ?inp 0 = (Some (Keyword Load), 4)" by code_simp
  have b: "parse_load_stmt ?inp 4 =
      Some (\<lparr>module_name = ''m'', symbols = [(''a'', ''a'')]\<rparr>, 14)" by code_simp
  have s: "statement_start ?inp 14"
    by (rule statement_start.after_load[OF statement_start.start a b])
  have t: "Tokenizer_tokenize ?inp 14 = (Some (Keyword Return), 21)" by code_simp
  have k: "Return \<noteq> Load" by simp
  from unsupported_keyword_fails s t k have "parse ?inp = None" by blast
  with s t k show ?thesis by simp
qed

text \<open>
  C6. A non-empty text that starts with a letter or underscore and continues with letters,
  digits and underscores is one token: the keyword whose spelling it is, and otherwise the
  identifier of that name.
\<close>

theorem identifier_alone_one_token:
  assumes "s \<noteq> []" "is_alpha (hd s)" "\<forall>c \<in> set (tl s). is_alpha c \<or> is_digit c"
  shows "(\<forall>kw. s = Keyword_to_string kw \<longrightarrow> tokenize s = Some [Keyword kw]) \<and>
         ((\<forall>kw. s \<noteq> Keyword_to_string kw) \<longrightarrow> tokenize s = Some [Identifier s])"
proof -
  have "tokenize s = Some [keyword_or_identifier s]"
    using Tokenizer_tokenize_identifier_run[OF assms] keyword_or_identifier_not_Eof
    by (rule tokenize_single)
  then show ?thesis
    by (auto simp: keyword_or_identifier_keyword keyword_or_identifier_other)
qed

theorem identifier_alone_one_token_witness:
  "tokenize ''lambda'' = Some [Keyword Lambda] \<and>
   tokenize ''Lambda'' = Some [Identifier ''Lambda''] \<and>
   tokenize ''_load_2x'' = Some [Identifier ''_load_2x'']"
proof -
  have "''lambda'' \<noteq> []" "is_alpha (hd ''lambda'')"
    "\<forall>c \<in> set (tl ''lambda''). is_alpha c \<or> is_digit c"
    by (simp_all add: is_alpha_def)
  from identifier_alone_one_token[OF this]
  have "''lambda'' = Keyword_to_string Lambda \<longrightarrow> tokenize ''lambda'' = Some [Keyword Lambda]"
    by blast
  then have a: "tokenize ''lambda'' = Some [Keyword Lambda]" by simp
  have n1: "\<forall>kw. ''Lambda'' \<noteq> Keyword_to_string kw"
  proof
    fix kw show "''Lambda'' \<noteq> Keyword_to_string kw" by (cases kw) simp_all
  qed
  have "''Lambda'' \<noteq> []" "is_alpha (hd ''Lambda'')"
    "\<forall>c \<in> set (tl ''Lambda''). is_alpha c \<or> is_digit c"
    by (simp_all add: is_alpha_def)
  from identifier_alone_one_token[OF this] n1
  have b: "tokenize ''Lambda'' = Some [Identifier ''Lambda'']" by blast
  have n2: "\<forall>kw. ''_load_2x'' \<noteq> Keyword_to_string kw"
  proof
    fix kw show "''_load_2x'' \<noteq> Keyword_to_string kw" by (cases kw) simp_all
  qed
  have "''_load_2x'' \<noteq> []" "is_alpha (hd ''_load_2x'')"
    "\<forall>c \<in> set (tl ''_load_2x''). is_alpha c \<or> is_digit c"
    by (simp_all add: is_alpha_def is_digit_def)
  from identifier_alone_one_token[OF this] n2
  have c: "tokenize ''_load_2x'' = Some [Identifier ''_load_2x'']" by blast
  from a b c show ?thesis by simp
qed

text \<open>
  C7. A \<^verbatim>\<open>"\<close> with no later \<^verbatim>\<open>"\<close>, and a \<^verbatim>\<open>"""\<close> with no later \<^verbatim>\<open>"""\<close>, make the call
  of the tokenizer fail, and with it \<^verbatim>\<open>tokenize\<close> of such an input. A terminated string
  gives a \<^const>\<open>StringLiteral\<close> whose value is the text between the opening delimiter and
  the first closing one, unchanged: a backslash is an ordinary character. (\<open>pre\<close> is the
  input before the string and \<open>rest\<close> the input after it; a \<^verbatim>\<open>""\<close> directly followed by
  \<^verbatim>\<open>"\<close> opens a multiline string, hence the side condition on the empty string.)
\<close>

theorem string_literal_scanning:
  \<open>(\<forall>pre s. dquote \<notin> set s \<longrightarrow>
      fst (Tokenizer_tokenize (pre @ dquote # s) (length pre)) = None) \<and>
   (\<forall>s. dquote \<notin> set s \<longrightarrow> tokenize (dquote # s) = None) \<and>
   (\<forall>pre s. (\<forall>i. substr s i 3 \<noteq> triple_quote) \<longrightarrow>
      fst (Tokenizer_tokenize (pre @ triple_quote @ s) (length pre)) = None) \<and>
   (\<forall>s. (\<forall>i. substr s i 3 \<noteq> triple_quote) \<longrightarrow> tokenize (triple_quote @ s) = None) \<and>
   (\<forall>pre s rest. dquote \<notin> set s \<longrightarrow> (s = [] \<longrightarrow> take 1 rest \<noteq> [dquote]) \<longrightarrow>
      Tokenizer_tokenize (pre @ dquote # s @ dquote # rest) (length pre) =
        (Some (StringLiteral s), length pre + length s + 2)) \<and>
   (\<forall>pre s rest. (\<forall>i<length s. substr (s @ triple_quote) i 3 \<noteq> triple_quote) \<longrightarrow>
      Tokenizer_tokenize (pre @ triple_quote @ s @ triple_quote @ rest) (length pre) =
        (Some (StringLiteral s), length pre + length s + 6)) \<and>
   tokenize ''"abc'' = None \<and>
   tokenize ''"""abc'' = None \<and>
   tokenize [dquote, CHR ''a'', CHR 0x5C, CHR ''n'', dquote] =
     Some [StringLiteral [CHR ''a'', CHR 0x5C, CHR ''n'']]\<close>
proof (intro conjI allI impI)
  fix pre s
  assume "dquote \<notin> set s"
  then show "fst (Tokenizer_tokenize (pre @ dquote # s) (length pre)) = None"
    by (simp add: unterminated_string)
next
  fix s
  assume "dquote \<notin> set s"
  from unterminated_string[OF this, of "[]"] show "tokenize (dquote # s) = None"
    by (simp add: Tokenizer_tokenize_None)
next
  fix pre s
  assume "\<forall>i. substr s i 3 \<noteq> triple_quote"
  then show "fst (Tokenizer_tokenize (pre @ triple_quote @ s) (length pre)) = None"
    by (rule unterminated_multiline_string)
next
  fix s
  assume "\<forall>i. substr s i 3 \<noteq> triple_quote"
  from unterminated_multiline_string[OF this, of "[]"]
  have "fst (Tokenizer_tokenize (triple_quote @ s) 0) = None" by simp
  then have "Tokenizer_tokenize (triple_quote @ s) 0 =
      (None, snd (Tokenizer_tokenize (triple_quote @ s) 0))"
    by (metis prod.collapse)
  then show "tokenize (triple_quote @ s) = None" by (rule Tokenizer_tokenize_None)
next
  fix pre s rest
  assume "dquote \<notin> set s" "s = [] \<longrightarrow> take 1 rest \<noteq> [dquote]"
  then show "Tokenizer_tokenize (pre @ dquote # s @ dquote # rest) (length pre) =
      (Some (StringLiteral s), length pre + length s + 2)"
    by (rule terminated_string)
next
  fix pre s rest
  assume "\<forall>i<length s. substr (s @ triple_quote) i 3 \<noteq> triple_quote"
  then show "Tokenizer_tokenize (pre @ triple_quote @ s @ triple_quote @ rest) (length pre) =
      (Some (StringLiteral s), length pre + length s + 6)"
    by (rule terminated_multiline_string)
next
  show \<open>tokenize ''"abc'' = None\<close> by code_simp
  show \<open>tokenize ''"""abc'' = None\<close> by code_simp
  show "tokenize [dquote, CHR ''a'', CHR 0x5C, CHR ''n'', dquote] =
     Some [StringLiteral [CHR ''a'', CHR 0x5C, CHR ''n'']]" by code_simp
qed

theorem string_literal_scanning_witness:
  \<open>tokenize (dquote # ''abc, def'') = None \<and>
   tokenize (triple_quote @ ''a"b""c'') = None \<and>
   Tokenizer_tokenize (''x = '' @ dquote # ''a b'' @ dquote # '';'') (length ''x = '') =
     (Some (StringLiteral ''a b''), length ''x = '' + length ''a b'' + 2) \<and>
   Tokenizer_tokenize (''x = '' @ triple_quote @ ''a"b'' @ triple_quote @ '';'') (length ''x = '') =
     (Some (StringLiteral ''a"b''), length ''x = '' + length ''a"b'' + 6)\<close>
proof -
  have h1: "dquote \<notin> set ''abc, def''" by (simp add: dquote_def)
  have a: "tokenize (dquote # ''abc, def'') = None"
    using string_literal_scanning h1 by blast
  have h2: \<open>\<forall>i. substr ''a"b""c'' i 3 \<noteq> triple_quote\<close>
  proof
    fix i
    have \<open>length (substr ''a"b""c'' i 3) < 3 \<or> i < 4\<close>
      by (auto simp: substr_def)
    moreover have "i = 0 \<or> i = 1 \<or> i = 2 \<or> i = 3" if "i < 4"
      using that by arith
    ultimately consider \<open>length (substr ''a"b""c'' i 3) < 3\<close>
      | "i = 0" | "i = 1" | "i = 2" | "i = 3"
      by blast
    then show \<open>substr ''a"b""c'' i 3 \<noteq> triple_quote\<close>
    proof cases
      case 1
      then show ?thesis by auto
    qed (simp_all add: substr_def triple_quote_def dquote_def)
  qed
  have b: \<open>tokenize (triple_quote @ ''a"b""c'') = None\<close>
    using string_literal_scanning h2 by blast
  have h3: "dquote \<notin> set ''a b''" "''a b'' = [] \<longrightarrow> take 1 '';'' \<noteq> [dquote]"
    by (simp_all add: dquote_def)
  have c: "Tokenizer_tokenize (''x = '' @ dquote # ''a b'' @ dquote # '';'') (length ''x = '') =
     (Some (StringLiteral ''a b''), length ''x = '' + length ''a b'' + 2)"
    using string_literal_scanning h3 by blast
  have h4: \<open>\<forall>i<length ''a"b''. substr (''a"b'' @ triple_quote) i 3 \<noteq> triple_quote\<close>
    by (simp add: less_Suc_eq numeral_3_eq_3 substr_def triple_quote_def dquote_def)
  have d: \<open>Tokenizer_tokenize (''x = '' @ triple_quote @ ''a"b'' @ triple_quote @ '';'')
       (length ''x = '') =
     (Some (StringLiteral ''a"b''), length ''x = '' + length ''a"b'' + 6)\<close>
    using string_literal_scanning h4 by blast
  from a b c d show ?thesis by blast
qed

text \<open>
  C8. No call of the tokenizer returns \<^const>\<open>DoubleSlashEquals\<close>, so no token sequence
  contains it: the table has no entry for it. The input \<^verbatim>\<open>//=\<close> gives \<^const>\<open>DoubleSlash\<close>
  and then \<^const>\<open>Equals\<close>.
\<close>

theorem DoubleSlashEquals_never_produced:
  "(\<forall>inp pos. fst (Tokenizer_tokenize inp pos) \<noteq> Some (Punctuator DoubleSlashEquals)) \<and>
   (\<forall>inp ts. tokenize inp = Some ts \<longrightarrow> Punctuator DoubleSlashEquals \<notin> set ts) \<and>
   DoubleSlashEquals \<notin> snd ` set punctuators \<and>
   tokenize ''//='' = Some [Punctuator DoubleSlash, Punctuator Equals]"
proof -
  have tbl: "DoubleSlashEquals \<notin> snd ` set punctuators"
    by (simp add: punctuators_def)
  have one: "fst (Tokenizer_tokenize inp pos) \<noteq> Some (Punctuator DoubleSlashEquals)" for inp pos
  proof
    assume "fst (Tokenizer_tokenize inp pos) = Some (Punctuator DoubleSlashEquals)"
    then have "Tokenizer_tokenize inp pos =
        (Some (Punctuator DoubleSlashEquals), snd (Tokenizer_tokenize inp pos))"
      by (metis prod.collapse)
    from Tokenizer_tokenize_Punctuator[OF this] tbl show False by simp
  qed
  have all: "Punctuator DoubleSlashEquals \<notin> set ts" if "tokenize inp = Some ts" for inp ts
  proof
    assume "Punctuator DoubleSlashEquals \<in> set ts"
    with that tokenize_loop_tokens[of inp 0 "[]" ts "Punctuator DoubleSlashEquals"]
    obtain p p' where "Tokenizer_tokenize inp p = (Some (Punctuator DoubleSlashEquals), p')"
      by (auto simp: tokenize_def)
    with one[of inp p] show False by simp
  qed
  have ex: "tokenize ''//='' = Some [Punctuator DoubleSlash, Punctuator Equals]"
    by code_simp
  from tbl one all ex show ?thesis by blast
qed

theorem DoubleSlashEquals_never_produced_witness:
  "tokenize ''a //= b'' =
     Some [Identifier ''a'', Punctuator DoubleSlash, Punctuator Equals, Identifier ''b''] \<and>
   Punctuator DoubleSlashEquals \<notin>
     set [Identifier ''a'', Punctuator DoubleSlash, Punctuator Equals, Identifier ''b'']"
proof -
  have t: "tokenize ''a //= b'' =
     Some [Identifier ''a'', Punctuator DoubleSlash, Punctuator Equals, Identifier ''b'']"
    by code_simp
  with DoubleSlashEquals_never_produced show ?thesis by blast
qed

text \<open>
  C9. The empty input gives the empty token sequence, and so does every input made of
  whitespace and \<^verbatim>\<open>#\<close> line comments only: the first call of the tokenizer skips all of it
  and returns \<^const>\<open>Eof\<close>.
\<close>

theorem whitespace_and_comments_no_tokens:
  "tokenize [] = Some [] \<and>
   (\<forall>s. only_whitespace_and_comments s \<longrightarrow>
      Tokenizer_tokenize s 0 = (Some Eof, length s) \<and> tokenize s = Some [])"
proof (intro conjI allI impI)
  show "tokenize [] = Some []" by code_simp
next
  fix s
  assume "only_whitespace_and_comments s"
  from skip_only_whitespace_and_comments[OF this, of "[]"]
  have "skip_comments_and_whitespace s 0 = length s" by simp
  then show eof: "Tokenizer_tokenize s 0 = (Some Eof, length s)"
    by (simp add: Tokenizer_tokenize_def)
  show "tokenize s = Some []"
    unfolding tokenize_def using eof by (subst tokenize_loop.simps) simp
qed

theorem whitespace_and_comments_no_tokens_witness:
  "only_whitespace_and_comments
     ([CHR '' '', CHR 0x09] @ ''# load(x)'' @ [CHR 0x0D, CHR 0x0A, CHR 0x0A] @ ''#### # '') \<and>
   tokenize ([CHR '' '', CHR 0x09] @ ''# load(x)'' @ [CHR 0x0D, CHR 0x0A, CHR 0x0A] @ ''#### # '')
     = Some []"
proof -
  have b: "only_whitespace_and_comments
     ([CHR '' '', CHR 0x09] @ ''# load(x)'' @ [CHR 0x0D, CHR 0x0A, CHR 0x0A] @ ''#### # '')"
    by (simp add: is_whitespace_def)
  with whitespace_and_comments_no_tokens show ?thesis by blast
qed

text \<open>
  C10. One call of \<^verbatim>\<open>Tokenizer::tokenize\<close> never moves the cursor back, keeps it within the
  input, and moves it forward unless it fails or returns \<^const>\<open>Eof\<close>. Hence the recursion of
  each of the three loops is well-founded on every input (they are total functions), a
  successful \<^verbatim>\<open>tokenize\<close> collects at most one token per input character, and a
  successful \<^verbatim>\<open>parse\<close> at most one statement per input character.
\<close>

theorem tokenize_and_parse_terminate:
  "(\<forall>inp pos r pos'. Tokenizer_tokenize inp pos = (r, pos') \<longrightarrow>
      pos \<le> pos' \<and> (pos \<le> length inp \<longrightarrow> pos' \<le> length inp) \<and>
      (r = None \<or> r = Some Eof \<or> pos < pos')) \<and>
   (\<forall>inp pos tokens. tokenize_loop_dom (inp, pos, tokens)) \<and>
   (\<forall>inp pos syms. load_symbols_dom (inp, pos, syms)) \<and>
   (\<forall>inp pos program. parse_loop_dom (inp, pos, program)) \<and>
   (\<forall>inp ts. tokenize inp = Some ts \<longrightarrow> length ts \<le> length inp) \<and>
   (\<forall>inp program. parse inp = Some program \<longrightarrow> length (statements program) \<le> length inp)"
proof (intro conjI allI impI)
  fix inp pos r pos'
  assume t: "Tokenizer_tokenize inp pos = (r, pos')"
  then show "pos \<le> pos'" by (rule Tokenizer_tokenize_mono)
  show "pos' \<le> length inp" if "pos \<le> length inp"
    using t that by (rule Tokenizer_tokenize_bounds)
  show "r = None \<or> r = Some Eof \<or> pos < pos'"
  proof (cases r)
    case (Some tok)
    with Tokenizer_tokenize_progress[of inp pos tok pos'] t show ?thesis by auto
  qed simp
next
  fix inp ts
  assume "tokenize inp = Some ts"
  with tokenize_loop_length[of inp 0 "[]" ts] show "length ts \<le> length inp"
    by (simp add: tokenize_def)
next
  fix inp program
  assume "parse inp = Some program"
  with parse_loop_length[of inp 0 "\<lparr>statements = []\<rparr>" program]
  show "length (statements program) \<le> length inp"
    by (simp add: parse_def)
qed (rule tokenize_loop_total load_symbols_total parse_loop_total)+

theorem tokenize_and_parse_terminate_witness:
  "Tokenizer_tokenize ''a  +'' 1 = (Some (Punctuator Plus), 4) \<and>
   1 \<le> length ''a  +'' \<and> 4 \<le> length ''a  +'' \<and>
   tokenize ''a  +'' = Some [Identifier ''a'', Punctuator Plus] \<and>
   length [Identifier ''a'', Punctuator Plus] \<le> length ''a  +''"
proof -
  have t: "Tokenizer_tokenize ''a  +'' 1 = (Some (Punctuator Plus), 4)" by code_simp
  have k: "tokenize ''a  +'' = Some [Identifier ''a'', Punctuator Plus]" by code_simp
  have l: "1 \<le> length ''a  +''" by simp
  from tokenize_and_parse_terminate t l have "4 \<le> length ''a  +''" by blast
  moreover from tokenize_and_parse_terminate k
  have "length [Identifier ''a'', Punctuator Plus] \<le> length ''a  +''" by blast
  ultimately show ?thesis using t k l by blast
qed

end
